theory Spec2Isabelle
  imports Complex_Main "HOL-Library.Word" "HOL-Library.Sublist"
begin

unbundle bit_operations_syntax

section \<open>Python values\<close>

text \<open>
  A Python \<open>str\<close> is a sequence of Unicode code points and \<open>len\<close> counts code points, so
  a string is modelled as a list of code points (natural numbers below \<open>0x110000\<close>).
  \<open>str_of\<close> turns an ASCII literal into such a list.
\<close>

type_synonym pystr = "nat list"

definition str_of :: "string \<Rightarrow> pystr" where
  "str_of s = map of_char s"

text \<open>
  A Python \<open>float\<close> is either NaN, an infinity or a finite number. Comparisons of floats
  are exact, so a finite float is modelled by the real number it denotes; every comparison
  with NaN is false.
\<close>

datatype pyfloat = NaN | NegInf | Fin real | PosInf

fun float_lt :: "pyfloat \<Rightarrow> pyfloat \<Rightarrow> bool" where
  "float_lt NaN _ = False"
| "float_lt _ NaN = False"
| "float_lt _ NegInf = False"
| "float_lt NegInf _ = True"
| "float_lt PosInf _ = False"
| "float_lt (Fin x) PosInf = True"
| "float_lt (Fin x) (Fin y) = (x < y)"

fun float_le :: "pyfloat \<Rightarrow> pyfloat \<Rightarrow> bool" where
  "float_le NaN _ = False"
| "float_le _ NaN = False"
| "float_le NegInf _ = True"
| "float_le _ PosInf = True"
| "float_le PosInf _ = False"
| "float_le (Fin x) NegInf = False"
| "float_le (Fin x) (Fin y) = (x \<le> y)"

definition float_gt :: "pyfloat \<Rightarrow> pyfloat \<Rightarrow> bool" where
  "float_gt a b = float_lt b a"

definition float_ge :: "pyfloat \<Rightarrow> pyfloat \<Rightarrow> bool" where
  "float_ge a b = float_le b a"

text \<open>
  The values \<open>json.loads\<close> produces. A decoded object is a Python \<open>dict\<close>, kept as an
  association list in insertion order.
\<close>

datatype json =
    JNull
  | JBool bool
  | JInt int
  | JFloat pyfloat
  | JStr pystr
  | JArr "json list"
  | JObj "(pystr \<times> json) list"

section \<open>Entities (ner.py, class Entity)\<close>

text \<open>
  \<open>Entity(text, label, start, end, confidence)\<close>. The label is whatever the extractor
  passed: the pattern extractor passes a string, the delegated extractor passes the decoded
  reply's \<open>label\<close> value unchecked, hence the dynamic type. Offsets are Python integers.
\<close>

record entity =
  e_text :: pystr
  e_label :: json
  e_start :: int
  e_end :: int
  e_confidence :: pyfloat

section \<open>The hybrid extractor's merge step (ner.py, HybridNER)\<close>

text \<open>\<open>HybridNER._is_overlap\<close>.\<close>

definition is_overlap :: "entity \<Rightarrow> entity \<Rightarrow> bool" where
  "is_overlap entity1 entity2 =
     (\<not> (e_end entity1 \<le> e_start entity2 \<or> e_end entity2 \<le> e_start entity1))"

text \<open>
  The inner loop of \<open>_merge_entities\<close>: \<open>for i, existing in enumerate(merged)\<close>. It stops at
  the first accepted entity overlapping the candidate, stores the candidate over it when
  the candidate's confidence is greater, and reports the flag \<open>overlapped\<close> together with
  the list \<open>merged\<close> as the loop leaves it.
\<close>

fun scan_merged :: "entity \<Rightarrow> entity list \<Rightarrow> bool \<times> entity list" where
  "scan_merged entity [] = (False, [])"
| "scan_merged entity (existing # rest) =
     (if is_overlap entity existing
      then (True,
            (if float_gt (e_confidence entity) (e_confidence existing) then entity else existing) # rest)
      else (case scan_merged entity rest of (overlapped, rest') \<Rightarrow> (overlapped, existing # rest')))"

text \<open>The outer loop: \<open>for entity in sorted_entities\<close>.\<close>

fun merge_loop :: "entity list \<Rightarrow> entity list \<Rightarrow> entity list" where
  "merge_loop merged [] = merged"
| "merge_loop merged (entity # sorted_entities) =
     (case scan_merged entity merged of (overlapped, merged') \<Rightarrow>
        merge_loop (if overlapped then merged' else merged' @ [entity]) sorted_entities)"

text \<open>
  \<open>HybridNER._merge_entities\<close>. Python's \<open>sorted\<close> is stable, as \<open>sort_key\<close> is.
\<close>

definition merge_entities :: "entity list \<Rightarrow> entity list" where
  "merge_entities entities =
     (if entities = [] then [] else merge_loop [] (sort_key e_start entities))"

subsection \<open>The merge algorithm as the specification words it\<close>

text \<open>
  The specification's reference algorithm: overlap is
  \<open>a.start < b.end \<and> b.start < a.end\<close>; candidates are sorted ascending by start and
  scanned in order; for each candidate the first accepted entity overlapping it is looked
  up; it is replaced by the candidate iff the candidate's confidence is strictly greater,
  otherwise the candidate is dropped; a candidate overlapping nothing is appended.
\<close>

definition spec_overlap :: "entity \<Rightarrow> entity \<Rightarrow> bool" where
  "spec_overlap a b = (e_start a < e_end b \<and> e_start b < e_end a)"

definition spec_accept :: "entity list \<Rightarrow> entity \<Rightarrow> entity list" where
  "spec_accept accepted c =
     (case find (\<lambda>a. spec_overlap a c) accepted of
        None \<Rightarrow> accepted @ [c]
      | Some a \<Rightarrow>
          if float_gt (e_confidence c) (e_confidence a)
          then accepted[length (takeWhile (\<lambda>a. \<not> spec_overlap a c) accepted) := c]
          else accepted)"

definition spec_merge :: "entity list \<Rightarrow> entity list" where
  "spec_merge candidates = foldl spec_accept [] (sort_key e_start candidates)"


section \<open>Exceptions and the Python library\<close>

text \<open>
  Exceptions are values. \<open>NERError\<close>, \<open>MaskingError\<close> and \<open>UnmaskingError\<close>
  (exceptions.py) wrap the exception they were raised from; the message text is not
  modelled. \<open>JSONDecodeError\<close> and \<open>UnicodeEncodeError\<close> are subclasses of
  \<open>ValueError\<close>, \<open>RecursionError\<close> is a subclass of \<open>RuntimeError\<close>;
  \<open>ReError\<close> is \<open>re.error\<close>.
\<close>

datatype exn =
    TypeError
  | AttributeError
  | KeyError
  | ValueError
  | JSONDecodeError
  | UnicodeEncodeError
  | OverflowError
  | IndexError
  | ReError
  | RuntimeError
  | RecursionError
  | NERError exn
  | MaskingError exn
  | UnmaskingError exn

text \<open>
  Functions of the Python standard library that the repository calls and that are not
  part of it are parameters of the model: \<open>json.loads\<close>, \<open>float\<close> on a string (\<open>None\<close>
  is \<open>ValueError\<close>) and on an integer (\<open>None\<close> is \<open>OverflowError\<close>), and the group
  index that the template parser of \<open>re\<close> resolves the name of a named group
  reference to, for a pattern without named groups.
\<close>

record pylib =
  json_loads :: "pystr \<Rightarrow> exn + json"
  float_of_str :: "pystr \<Rightarrow> pyfloat option"
  float_of_int :: "int \<Rightarrow> pyfloat option"
  group_index :: "pystr \<Rightarrow> exn + nat"

subsection \<open>Slicing\<close>

text \<open>Python's \<open>s[i:j]\<close>, \<open>s[:j]\<close> and \<open>s[i:]\<close> for integer bounds: a negative bound
  counts from the end, and bounds are clamped to the string.\<close>

definition norm_index :: "int \<Rightarrow> int \<Rightarrow> int" where
  "norm_index n i = (if i < 0 then max 0 (n + i) else min n i)"

definition py_slice :: "'a list \<Rightarrow> int \<Rightarrow> int \<Rightarrow> 'a list" where
  "py_slice s i j =
     (let a = norm_index (int (length s)) i; b = norm_index (int (length s)) j
      in take (nat (b - a)) (drop (nat a) s))"

definition slice_to :: "'a list \<Rightarrow> int \<Rightarrow> 'a list" where
  "slice_to s j = take (nat (norm_index (int (length s)) j)) s"

definition slice_from :: "'a list \<Rightarrow> int \<Rightarrow> 'a list" where
  "slice_from s i = drop (nat (norm_index (int (length s)) i)) s"

section \<open>The pattern extractor (ner.py, RegexNER)\<close>

text \<open>
  A compiled pattern is modelled by its \<open>finditer\<close>: the function from a text to the
  spans \<open>(start, end)\<close> of its matches, in order. \<open>patterns\<close> is the dictionary from
  label to compiled pattern, in insertion order.
\<close>

record regex_ner =
  patterns :: "(pystr \<times> (pystr \<Rightarrow> (int \<times> int) list)) list"

definition regex_extract :: "regex_ner \<Rightarrow> pystr \<Rightarrow> entity list" where
  "regex_extract self text =
     concat (map (\<lambda>(label, finditer).
        map (\<lambda>(s, e). \<lparr>e_text = py_slice text s e, e_label = JStr label,
                        e_start = s, e_end = e, e_confidence = Fin 1\<rparr>) (finditer text))
       (patterns self))"

text \<open>The \<open>finditer\<close> of the pattern \<open>re.escape(lit)\<close>, for a non-empty literal: the
  leftmost non-overlapping occurrences of \<open>lit\<close>.\<close>

fun literal_finditer_from :: "pystr \<Rightarrow> int \<Rightarrow> pystr \<Rightarrow> (int \<times> int) list" where
  "literal_finditer_from lit pos [] = []"
| "literal_finditer_from lit pos (c # cs) =
     (if lit \<noteq> [] \<and> prefix lit (c # cs)
      then (pos, pos + int (length lit)) #
           literal_finditer_from lit (pos + int (length lit)) (drop (length lit - 1) cs)
      else literal_finditer_from lit (pos + 1) cs)"

definition literal_finditer :: "pystr \<Rightarrow> pystr \<Rightarrow> (int \<times> int) list" where
  "literal_finditer lit text = literal_finditer_from lit 0 text"

section \<open>The delegated extractor (ner.py, LLMNER)\<close>

text \<open>
  \<open>llm_reply\<close> is \<open>llm_caller\<close> applied to the prompt \<open>_build_prompt\<close> makes of the
  text: the reply, or the exception either of them raises. The prompt template itself
  (and \<open>entity_types\<close>, which only the prompt uses) is not modelled.
\<close>

record llm_ner =
  llm_reply :: "pystr \<Rightarrow> exn + pystr"
  confidence_threshold :: pyfloat
  max_text_length :: int

text \<open>The marker \<open>"...[\<dots>]"\<close> appended to a truncated text: three dots, an opening
  bracket, the code points U+622A and U+65AD, a closing bracket.\<close>

definition truncation_marker :: pystr where
  "truncation_marker = [46, 46, 46, 91, 0x622A, 0x65AD, 93]"

definition truncate_text :: "llm_ner \<Rightarrow> pystr \<Rightarrow> pystr" where
  "truncate_text self text =
     (if int (length text) > max_text_length self
      then slice_to text (max_text_length self) @ truncation_marker
      else text)"

text \<open>The \<open>re.search\<close> for an opening brace, anything (newlines included), and a
  closing brace: the match runs from the first opening brace (code point 123) to the last
  closing brace (125) after it.\<close>

definition find_json_block :: "pystr \<Rightarrow> pystr option" where
  "find_json_block response =
     (let rest = dropWhile (\<lambda>c. c \<noteq> 123) response
      in if rest = [] \<or> 125 \<notin> set (tl rest) then None
         else Some (rev (dropWhile (\<lambda>c. c \<noteq> 125) (rev rest))))"

definition json_block :: "pystr \<Rightarrow> pystr" where
  "json_block response = (case find_json_block response of Some m \<Rightarrow> m | None \<Rightarrow> response)"

text \<open>\<open>d.get(key, default)\<close> on a decoded object.\<close>

definition dict_get :: "(pystr \<times> json) list \<Rightarrow> string \<Rightarrow> json \<Rightarrow> json" where
  "dict_get kvs key dflt = (case map_of kvs (str_of key) of None \<Rightarrow> dflt | Some v \<Rightarrow> v)"

text \<open>\<open>data.get('entities', [])\<close>: only a dict has \<open>get\<close>.\<close>

fun get_entities :: "json \<Rightarrow> exn + json" where
  "get_entities (JObj kvs) = Inr (dict_get kvs ''entities'' (JArr []))"
| "get_entities _ = Inl AttributeError"

text \<open>What \<open>for item in \<dots>\<close> iterates over: the elements of a list, the keys of a
  dict, the characters of a string; anything else is not iterable.\<close>

fun iter_items :: "json \<Rightarrow> exn + json list" where
  "iter_items (JArr xs) = Inr xs"
| "iter_items (JObj kvs) = Inr (map (\<lambda>kv. JStr (fst kv)) kvs)"
| "iter_items (JStr s) = Inr (map (\<lambda>c. JStr [c]) s)"
| "iter_items _ = Inl TypeError"

text \<open>The number a value denotes in an ordering comparison with a number (\<open>bool\<close> is a
  subclass of \<open>int\<close>), and the integer it denotes as a slice bound.\<close>

fun num_of :: "json \<Rightarrow> pyfloat option" where
  "num_of (JInt i) = Some (Fin (of_int i))"
| "num_of (JBool b) = Some (Fin (if b then 1 else 0))"
| "num_of (JFloat f) = Some f"
| "num_of _ = None"

fun index_of :: "json \<Rightarrow> int option" where
  "index_of (JInt i) = Some i"
| "index_of (JBool b) = Some (if b then 1 else 0)"
| "index_of _ = None"

text \<open>\<open>float(x)\<close>.\<close>

fun to_float :: "pylib \<Rightarrow> json \<Rightarrow> exn + pyfloat" where
  "to_float lib (JFloat f) = Inr f"
| "to_float lib (JInt i) = (case float_of_int lib i of None \<Rightarrow> Inl OverflowError | Some f \<Rightarrow> Inr f)"
| "to_float lib (JBool b) = Inr (Fin (if b then 1 else 0))"
| "to_float lib (JStr s) = (case float_of_str lib s of None \<Rightarrow> Inl ValueError | Some f \<Rightarrow> Inr f)"
| "to_float lib _ = Inl TypeError"

text \<open>
  The body of the loop of \<open>_parse_llm_response\<close> for one item: \<open>Inr None\<close> when the item
  is skipped, \<open>Inr (Some entity)\<close> when an entity is appended, \<open>Inl\<close> when the body
  raises. The chained comparison \<open>0 <= start < end <= len(original_text)\<close> evaluates left
  to right and stops at the first false link. An entity keeps \<open>start\<close> and \<open>end\<close> as
  the integers they denote.
\<close>

definition parse_item :: "pylib \<Rightarrow> pystr \<Rightarrow> json \<Rightarrow> exn + entity option" where
  "parse_item lib original_text item =
     (case item of
        JObj kvs \<Rightarrow>
          (let start = dict_get kvs ''start'' (JInt 0);
               stop = dict_get kvs ''end'' (JInt 0);
               expected_text = dict_get kvs ''text'' (JStr [])
           in case num_of start of
                None \<Rightarrow> Inl TypeError
              | Some s \<Rightarrow>
                  if \<not> float_le (Fin 0) s then Inr None
                  else (case num_of stop of
                          None \<Rightarrow> Inl TypeError
                        | Some e \<Rightarrow>
                            if \<not> float_lt s e then Inr None
                            else if \<not> float_le e (Fin (real (length original_text))) then Inr None
                            else (case (index_of start, index_of stop) of
                                    (Some i, Some j) \<Rightarrow>
                                      if JStr (py_slice original_text i j) = expected_text
                                      then (case to_float lib (dict_get kvs ''confidence'' (JFloat (Fin (1 / 2)))) of
                                              Inl x \<Rightarrow> Inl x
                                            | Inr c \<Rightarrow>
                                                Inr (Some \<lparr>e_text = py_slice original_text i j,
                                                           e_label = dict_get kvs ''label'' (JStr (str_of ''UNKNOWN'')),
                                                           e_start = i, e_end = j, e_confidence = c\<rparr>))
                                      else Inr None
                                  | _ \<Rightarrow> Inl TypeError)))
      | _ \<Rightarrow> Inl AttributeError)"

fun parse_items :: "pylib \<Rightarrow> pystr \<Rightarrow> json list \<Rightarrow> exn + entity list" where
  "parse_items lib original_text [] = Inr []"
| "parse_items lib original_text (item # items) =
     (case parse_item lib original_text item of
        Inl x \<Rightarrow> Inl x
      | Inr r \<Rightarrow>
          (case parse_items lib original_text items of
             Inl x \<Rightarrow> Inl x
           | Inr entities \<Rightarrow> Inr (case r of None \<Rightarrow> entities | Some entity \<Rightarrow> entity # entities)))"

text \<open>\<open>LLMNER._fallback_parse\<close>.\<close>

definition fallback_parse :: "pystr \<Rightarrow> pystr \<Rightarrow> entity list" where
  "fallback_parse response original_text = []"

text \<open>\<open>except (json.JSONDecodeError, KeyError, ValueError)\<close>, with the subclasses of
  \<open>ValueError\<close>.\<close>

definition caught_by_parse :: "exn \<Rightarrow> bool" where
  "caught_by_parse x = (x = JSONDecodeError \<or> x = KeyError \<or> x = ValueError \<or> x = UnicodeEncodeError)"

definition parse_llm_response :: "pylib \<Rightarrow> pystr \<Rightarrow> pystr \<Rightarrow> exn + entity list" where
  "parse_llm_response lib response original_text =
     (case (case json_loads lib (json_block response) of
              Inl x \<Rightarrow> Inl x
            | Inr data \<Rightarrow>
                (case get_entities data of
                   Inl x \<Rightarrow> Inl x
                 | Inr v \<Rightarrow>
                     (case iter_items v of
                        Inl x \<Rightarrow> Inl x
                      | Inr items \<Rightarrow> parse_items lib original_text items))) of
        Inl x \<Rightarrow> if caught_by_parse x then Inr (fallback_parse response original_text) else Inl x
      | Inr entities \<Rightarrow> Inr entities)"

text \<open>\<open>LLMNER.extract_entities\<close>.\<close>

definition llm_extract :: "pylib \<Rightarrow> llm_ner \<Rightarrow> pystr \<Rightarrow> exn + entity list" where
  "llm_extract lib self text0 =
     (let text = truncate_text self text0
      in case llm_reply self text of
           Inl x \<Rightarrow> Inl (NERError x)
         | Inr response \<Rightarrow>
             (case parse_llm_response lib response text of
                Inl x \<Rightarrow> Inl (NERError x)
              | Inr entities \<Rightarrow>
                  Inr (filter (\<lambda>entity. float_ge (e_confidence entity) (confidence_threshold self))
                         entities)))"

section \<open>The extractors together (ner.py, HybridNER.extract_entities)\<close>

datatype ner =
    RegexNER regex_ner
  | LLMNER llm_ner
  | HybridNER "regex_ner option" "llm_ner option"

definition hybrid_extract ::
  "pylib \<Rightarrow> regex_ner option \<Rightarrow> llm_ner option \<Rightarrow> pystr \<Rightarrow> exn + entity list" where
  "hybrid_extract lib regex llm text =
     (let regex_entities = (case regex of None \<Rightarrow> [] | Some r \<Rightarrow> regex_extract r text)
      in case llm of
           None \<Rightarrow> Inr (merge_entities regex_entities)
         | Some l \<Rightarrow>
             (case llm_extract lib l text of
                Inl x \<Rightarrow> Inl x
              | Inr llm_entities \<Rightarrow> Inr (merge_entities (regex_entities @ llm_entities))))"

fun extract_entities :: "pylib \<Rightarrow> ner \<Rightarrow> pystr \<Rightarrow> exn + entity list" where
  "extract_entities lib (RegexNER r) text = Inr (regex_extract r text)"
| "extract_entities lib (LLMNER l) text = llm_extract lib l text"
| "extract_entities lib (HybridNER regex llm) text = hybrid_extract lib regex llm text"

section \<open>The token generator (masker.py, DataMasker.short-hash and token)\<close>

subsection \<open>UTF-8\<close>

type_synonym byte = "8 word"

text \<open>\<open>str.encode("utf-8")\<close>: a surrogate code point cannot be encoded, and the call
  raises \<open>UnicodeEncodeError\<close>.\<close>

definition utf8_char :: "nat \<Rightarrow> byte list option" where
  "utf8_char c =
     (if c < 0x80 then Some [of_nat c]
      else if c < 0x800 then Some [of_nat (0xC0 + c div 64), of_nat (0x80 + c mod 64)]
      else if 0xD800 \<le> c \<and> c < 0xE000 then None
      else if c < 0x10000
      then Some [of_nat (0xE0 + c div 4096), of_nat (0x80 + c div 64 mod 64), of_nat (0x80 + c mod 64)]
      else if c < 0x110000
      then Some [of_nat (0xF0 + c div 262144), of_nat (0x80 + c div 4096 mod 64),
                 of_nat (0x80 + c div 64 mod 64), of_nat (0x80 + c mod 64)]
      else None)"

fun utf8_encode :: "pystr \<Rightarrow> byte list option" where
  "utf8_encode [] = Some []"
| "utf8_encode (c # cs) =
     (case utf8_char c of
        None \<Rightarrow> None
      | Some bs \<Rightarrow> (case utf8_encode cs of None \<Rightarrow> None | Some rest \<Rightarrow> Some (bs @ rest)))"

subsection \<open>SHA-1 (\<open>hashlib.sha1(...).digest()\<close>)\<close>

type_synonym w32 = "32 word"

definition rotl :: "nat \<Rightarrow> w32 \<Rightarrow> w32" where
  "rotl n x = push_bit n x OR drop_bit (32 - n) x"

definition be_bytes64 :: "64 word \<Rightarrow> byte list" where
  "be_bytes64 n =
     [ucast (drop_bit 56 n), ucast (drop_bit 48 n), ucast (drop_bit 40 n), ucast (drop_bit 32 n),
      ucast (drop_bit 24 n), ucast (drop_bit 16 n), ucast (drop_bit 8 n), ucast n]"

text \<open>The padding: the byte \<open>0x80\<close>, then the least number of zero bytes that brings the
  length to 56 modulo 64, then the bit length of the message as a 64-bit big-endian
  number.\<close>

definition sha1_pad :: "byte list \<Rightarrow> byte list" where
  "sha1_pad m =
     m @ [0x80] @ replicate ((119 - length m mod 64) mod 64) 0 @ be_bytes64 (8 * of_nat (length m))"

fun words_of :: "byte list \<Rightarrow> w32 list" where
  "words_of (a # b # c # d # bs) =
     (push_bit 24 (ucast a) OR push_bit 16 (ucast b) OR push_bit 8 (ucast c) OR ucast d) # words_of bs"
| "words_of _ = []"

text \<open>The message schedule: \<open>n\<close> words from a window of the last sixteen.\<close>

fun schedule :: "nat \<Rightarrow> w32 list \<Rightarrow> w32 list" where
  "schedule 0 ws = []"
| "schedule (Suc n) ws =
     hd ws # schedule n (tl ws @ [rotl 1 (ws ! 13 XOR ws ! 8 XOR ws ! 2 XOR ws ! 0)])"

type_synonym sha_state = "w32 \<times> w32 \<times> w32 \<times> w32 \<times> w32"

definition sha_f :: "nat \<Rightarrow> w32 \<Rightarrow> w32 \<Rightarrow> w32 \<Rightarrow> w32" where
  "sha_f t b c d =
     (if t < 20 then (b AND c) OR (NOT b AND d)
      else if t < 40 then b XOR c XOR d
      else if t < 60 then (b AND c) OR (b AND d) OR (c AND d)
      else b XOR c XOR d)"

definition sha_k :: "nat \<Rightarrow> w32" where
  "sha_k t =
     (if t < 20 then 0x5A827999 else if t < 40 then 0x6ED9EBA1
      else if t < 60 then 0x8F1BBCDC else 0xCA62C1D6)"

fun rounds :: "nat \<Rightarrow> w32 list \<Rightarrow> sha_state \<Rightarrow> sha_state" where
  "rounds t [] s = s"
| "rounds t (w # ws) (a, b, c, d, e) =
     rounds (t + 1) ws (rotl 5 a + sha_f t b c d + e + sha_k t + w, a, rotl 30 b, c, d)"

fun compress :: "sha_state \<Rightarrow> byte list \<Rightarrow> sha_state" where
  "compress (h0, h1, h2, h3, h4) blk =
     (case rounds 0 (schedule 80 (words_of blk)) (h0, h1, h2, h3, h4) of
        (a, b, c, d, e) \<Rightarrow> (h0 + a, h1 + b, h2 + c, h3 + d, h4 + e))"

fun blocks :: "nat \<Rightarrow> sha_state \<Rightarrow> byte list \<Rightarrow> sha_state" where
  "blocks 0 h bs = h"
| "blocks (Suc n) h bs = blocks n (compress h (take 64 bs)) (drop 64 bs)"

definition word_bytes :: "w32 \<Rightarrow> byte list" where
  "word_bytes w = [ucast (drop_bit 24 w), ucast (drop_bit 16 w), ucast (drop_bit 8 w), ucast w]"

fun sha1_out :: "sha_state \<Rightarrow> byte list" where
  "sha1_out (a, b, c, d, e) =
     word_bytes a @ word_bytes b @ word_bytes c @ word_bytes d @ word_bytes e"

definition sha1 :: "byte list \<Rightarrow> byte list" where
  "sha1 m =
     sha1_out (blocks (length (sha1_pad m) div 64)
       (0x67452301, 0xEFCDAB89, 0x98BADCFE, 0x10325476, 0xC3D2E1F0) (sha1_pad m))"

subsection \<open>Base32 (\<open>base64.b32encode\<close>)\<close>

definition b32_alphabet :: pystr where
  "b32_alphabet = str_of ''ABCDEFGHIJKLMNOPQRSTUVWXYZ234567''"

definition b32_digit :: "40 word \<Rightarrow> nat \<Rightarrow> nat" where
  "b32_digit q k = b32_alphabet ! unat (drop_bit (35 - 5 * k) q AND 31)"

text \<open>Five bytes make eight digits.\<close>

definition b32_quint :: "byte \<Rightarrow> byte \<Rightarrow> byte \<Rightarrow> byte \<Rightarrow> byte \<Rightarrow> pystr" where
  "b32_quint a b c d e =
     (let q = push_bit 32 (ucast a) OR push_bit 24 (ucast b) OR push_bit 16 (ucast c) OR
              push_bit 8 (ucast d) OR ucast e
      in [b32_digit q 0, b32_digit q 1, b32_digit q 2, b32_digit q 3,
          b32_digit q 4, b32_digit q 5, b32_digit q 6, b32_digit q 7])"

text \<open>A last group of one to four bytes is filled with zero bytes, and the digits that
  carry no input are replaced by the padding character \<open>=\<close> (code point 61).\<close>

fun b32encode :: "byte list \<Rightarrow> pystr" where
  "b32encode [] = []"
| "b32encode (a # b # c # d # e # rest) = b32_quint a b c d e @ b32encode rest"
| "b32encode [a, b, c, d] = take 7 (b32_quint a b c d 0) @ replicate 1 61"
| "b32encode [a, b, c] = take 5 (b32_quint a b c 0 0) @ replicate 3 61"
| "b32encode [a, b] = take 4 (b32_quint a b 0 0 0) @ replicate 4 61"
| "b32encode [a] = take 2 (b32_quint a 0 0 0 0) @ replicate 6 61"

text \<open>\<open>rstrip("=")\<close> and \<open>lower()\<close> on an ASCII string.\<close>

definition rstrip_eq :: "pystr \<Rightarrow> pystr" where
  "rstrip_eq s = rev (dropWhile (\<lambda>c. c = 61) (rev s))"

definition ascii_lower :: "nat \<Rightarrow> nat" where
  "ascii_lower c = (if 65 \<le> c \<and> c \<le> 90 then c + 32 else c)"

definition hash8 :: "byte list \<Rightarrow> pystr" where
  "hash8 bs = take 8 (map ascii_lower (rstrip_eq (b32encode (sha1 bs))))"

text \<open>\<open>DataMasker._short_hash\<close>: any exception is re-raised as \<open>MaskingError\<close>.\<close>

definition short_hash :: "pystr \<Rightarrow> pystr \<Rightarrow> pystr \<Rightarrow> exn + pystr" where
  "short_hash salt kind value =
     (case utf8_encode (salt @ kind @ value) of
        None \<Rightarrow> Inl (MaskingError UnicodeEncodeError)
      | Some bs \<Rightarrow> Inr (hash8 bs))"

text \<open>\<open>DataMasker._token\<close>.\<close>

definition token :: "pystr \<Rightarrow> pystr \<Rightarrow> pystr \<Rightarrow> exn + pystr" where
  "token salt kind value =
     (case short_hash salt kind value of
        Inl x \<Rightarrow> Inl x
      | Inr h \<Rightarrow> Inr (str_of ''<RG:'' @ kind @ str_of '':'' @ h @ str_of ''>''))"

text \<open>\<open>self._token(entity.label, entity.text)\<close>: a label that is not a string makes
  \<open>self.salt + kind + value\<close> raise \<open>TypeError\<close> inside \<open>_short_hash\<close>.\<close>

definition entity_token :: "pystr \<Rightarrow> entity \<Rightarrow> exn + pystr" where
  "entity_token salt entity =
     (case e_label entity of
        JStr kind \<Rightarrow> token salt kind (e_text entity)
      | _ \<Rightarrow> Inl (MaskingError TypeError))"

section \<open>The mask engine (masker.py, DataMasker.mask)\<close>

text \<open>A mapping is a Python dict from token to original value, kept as an association
  list in insertion order.\<close>

type_synonym mapping = "(pystr \<times> pystr) list"

text \<open>The loop \<open>for entity in entities\<close> of \<open>mask\<close>.\<close>

fun mask_loop :: "pystr \<Rightarrow> mapping \<Rightarrow> pystr \<Rightarrow> entity list \<Rightarrow> exn + (pystr \<times> mapping)" where
  "mask_loop salt mapping masked_text [] = Inr (masked_text, mapping)"
| "mask_loop salt mapping masked_text (entity # entities) =
     (case entity_token salt entity of
        Inl x \<Rightarrow> Inl x
      | Inr tk \<Rightarrow>
          mask_loop salt
            (if map_of mapping tk = None then mapping @ [(tk, e_text entity)] else mapping)
            (slice_to masked_text (e_start entity) @ tk @ slice_from masked_text (e_end entity))
            entities)"

text \<open>\<open>entities.sort(key=lambda x: x.start, reverse=True)\<close>: descending by start, stable.\<close>

definition sort_desc :: "entity list \<Rightarrow> entity list" where
  "sort_desc entities = sort_key (\<lambda>x. - e_start x) entities"

text \<open>The state of a \<open>DataMasker\<close>: its salt, its extractor, and the slot
  \<open>last_entities\<close> that \<open>get_last_entities\<close> reads.\<close>

record masker =
  salt :: pystr
  ner :: ner
  last_entities :: "entity list"

text \<open>
  \<open>DataMasker.mask\<close> returns the result or the exception, and the state it leaves.
  \<open>self.last_entities = entities\<close> is executed right after the extraction; the sort that
  follows is in place, on the same list object, so the slot holds the sorted list.
\<close>

definition mask ::
  "pylib \<Rightarrow> masker \<Rightarrow> pystr \<Rightarrow> (exn + (pystr \<times> mapping \<times> entity list)) \<times> masker" where
  "mask lib self text =
     (case extract_entities lib (ner self) text of
        Inl x \<Rightarrow> (Inl (MaskingError x), self)
      | Inr extracted \<Rightarrow>
          (let entities = sort_desc extracted;
               self' = self\<lparr>last_entities := entities\<rparr>
           in case mask_loop (salt self) [] text entities of
                Inl x \<Rightarrow> (Inl (MaskingError x), self')
              | Inr (masked_text, mapping) \<Rightarrow> (Inr (masked_text, mapping, entities), self')))"

definition get_last_entities :: "masker \<Rightarrow> entity list" where
  "get_last_entities self = last_entities self"

section \<open>The unmask engine (masker.py, DataMasker.unmask)\<close>

subsection \<open>\<open>re.sub\<close> with an escaped literal as the pattern\<close>

text \<open>
  The replacement argument of \<open>re.sub\<close> is a template: before any substitution the
  template parser of \<open>re\<close> reads its backslash escapes, and raises on a bad one. For a
  pattern without groups a template is a sequence of literal characters and references to
  the whole match.
\<close>

datatype piece = Lit nat | Whole

definition is_octal :: "nat \<Rightarrow> bool" where
  "is_octal c = (48 \<le> c \<and> c \<le> 55)"

definition is_digit :: "nat \<Rightarrow> bool" where
  "is_digit c = (48 \<le> c \<and> c \<le> 57)"

definition is_ascii_letter :: "nat \<Rightarrow> bool" where
  "is_ascii_letter c = ((65 \<le> c \<and> c \<le> 90) \<or> (97 \<le> c \<and> c \<le> 122))"

text \<open>The escapes that stand for one character: a, b, f, n, r, t, v and the backslash.\<close>

definition simple_escape :: "nat \<Rightarrow> nat option" where
  "simple_escape c =
     (if c = 97 then Some 7 else if c = 98 then Some 8 else if c = 102 then Some 12
      else if c = 110 then Some 10 else if c = 114 then Some 13 else if c = 116 then Some 9
      else if c = 118 then Some 11 else if c = 92 then Some 92 else None)"

definition cons_piece :: "piece list \<Rightarrow> exn + piece list \<Rightarrow> exn + piece list" where
  "cons_piece ps r = (case r of Inl x \<Rightarrow> Inl x | Inr qs \<Rightarrow> Inr (ps @ qs))"

text \<open>
  The name of a named group reference, up to the closing angle bracket (code point 62),
  and what follows it. The tokenizer reads a backslash together with the character after
  it, so an escaped bracket does not end the name; \<open>None\<close> is \<open>re.error\<close>.
\<close>

fun get_until :: "pystr \<Rightarrow> (pystr \<times> pystr) option" where
  "get_until [] = None"
| "get_until (c # cs) =
     (if c = 62 then Some ([], cs)
      else if c = 92 then
        (case cs of
           [] \<Rightarrow> None
         | d # rest \<Rightarrow>
             (case get_until rest of None \<Rightarrow> None | Some (n, r) \<Rightarrow> Some (c # d # n, r)))
      else (case get_until cs of None \<Rightarrow> None | Some (n, r) \<Rightarrow> Some (c # n, r)))"

function parse_template :: "(pystr \<Rightarrow> exn + nat) \<Rightarrow> pystr \<Rightarrow> exn + piece list" where
  "parse_template gi [] = Inr []"
| "parse_template gi (c # cs) =
     (if c \<noteq> 92 then cons_piece [Lit c] (parse_template gi cs)
      else (case cs of
          [] \<Rightarrow> Inl ReError
        | d # rest \<Rightarrow>
            if d = 103 then
              (if rest = [] \<or> hd rest \<noteq> 60 then Inl ReError
               else (case get_until (tl rest) of
                       None \<Rightarrow> Inl ReError
                     | Some (name, rest') \<Rightarrow>
                         if name = [] \<or> rest' = [92] then Inl ReError
                         else (case gi name of
                                 Inl x \<Rightarrow> Inl x
                               | Inr index \<Rightarrow>
                                   if index > 0 then Inl ReError
                                   else cons_piece [Whole] (parse_template gi rest'))))
            else if d = 48 then
              (if rest \<noteq> [] \<and> is_octal (hd rest)
               then (if tl rest \<noteq> [] \<and> is_octal (hd (tl rest))
                     then cons_piece [Lit ((hd rest - 48) * 8 + (hd (tl rest) - 48))]
                            (parse_template gi (tl (tl rest)))
                     else cons_piece [Lit (hd rest - 48)] (parse_template gi (tl rest)))
               else cons_piece [Lit 0] (parse_template gi rest))
            else if is_digit d then
              (if rest \<noteq> [] \<and> is_digit (hd rest) \<and> is_octal d \<and> is_octal (hd rest) \<and>
                  tl rest \<noteq> [] \<and> is_octal (hd (tl rest))
               then (if (d - 48) * 64 + (hd rest - 48) * 8 + (hd (tl rest) - 48) > 255 then Inl ReError
                     else cons_piece [Lit ((d - 48) * 64 + (hd rest - 48) * 8 + (hd (tl rest) - 48))]
                            (parse_template gi (tl (tl rest))))
               else Inl ReError)
            else (case simple_escape d of
                    Some e \<Rightarrow> cons_piece [Lit e] (parse_template gi rest)
                  | None \<Rightarrow>
                      if is_ascii_letter d then Inl ReError
                      else cons_piece [Lit 92, Lit d] (parse_template gi rest))))"
  by pat_completeness auto
termination
proof -
  have until: "get_until s = Some (n, r) \<Longrightarrow> length r < length s" for s n r
    by (induction s arbitrary: n r rule: get_until.induct)
       (fastforce split: if_splits list.splits option.splits)+
  show ?thesis
    by (relation "measure (\<lambda>(gi, s). length s)")
       (auto simp: less_Suc_eq_le dest!: until intro: le_SucI le_trans [OF diff_le_self])
qed

text \<open>The replacement made for a match \<open>m\<close>.\<close>

fun expand_template :: "piece list \<Rightarrow> pystr \<Rightarrow> pystr" where
  "expand_template [] m = []"
| "expand_template (Lit c # ps) m = c # expand_template ps m"
| "expand_template (Whole # ps) m = m @ expand_template ps m"

text \<open>
  Replacing the leftmost non-overlapping occurrences of the literal \<open>tk\<close> by \<open>r\<close>. The
  empty literal matches once at every position of the string, the end included.
\<close>

fun sub_literal :: "pystr \<Rightarrow> pystr \<Rightarrow> pystr \<Rightarrow> pystr" where
  "sub_literal tk r [] = (if tk = [] then r else [])"
| "sub_literal tk r (c # cs) =
     (if tk = [] then r @ c # sub_literal tk r cs
      else if prefix tk (c # cs) then r @ sub_literal tk r (drop (length tk - 1) cs)
      else c # sub_literal tk r cs)"

text \<open>\<open>re.sub(re.escape(tk), repl, string)\<close>.\<close>

definition re_sub :: "pylib \<Rightarrow> pystr \<Rightarrow> pystr \<Rightarrow> pystr \<Rightarrow> exn + pystr" where
  "re_sub lib tk repl string =
     (case parse_template (group_index lib) repl of
        Inl x \<Rightarrow> Inl x
      | Inr ps \<Rightarrow> Inr (sub_literal tk (expand_template ps tk) string))"

subsection \<open>\<open>unmask\<close>\<close>

text \<open>The loop \<open>for tk in tokens_sorted\<close>.\<close>

fun unmask_loop :: "pylib \<Rightarrow> mapping \<Rightarrow> pystr list \<Rightarrow> pystr \<Rightarrow> exn + pystr" where
  "unmask_loop lib mapping [] result = Inr result"
| "unmask_loop lib mapping (tk # tks) result =
     (case map_of mapping tk of
        None \<Rightarrow> Inl KeyError
      | Some v \<Rightarrow>
          (case re_sub lib tk v result of
             Inl x \<Rightarrow> Inl x
           | Inr result' \<Rightarrow> unmask_loop lib mapping tks result'))"

text \<open>\<open>sorted(mapping.keys(), key=len, reverse=True)\<close>: longest first, stable.\<close>

definition tokens_sorted :: "mapping \<Rightarrow> pystr list" where
  "tokens_sorted mapping = sort_key (\<lambda>k. - int (length k)) (map fst mapping)"

definition unmask :: "pylib \<Rightarrow> pystr \<Rightarrow> mapping \<Rightarrow> exn + pystr" where
  "unmask lib text mapping =
     (case unmask_loop lib mapping (tokens_sorted mapping) text of
        Inl x \<Rightarrow> Inl (UnmaskingError x)
      | Inr result \<Rightarrow> Inr result)"

section \<open>Notions used in the statements and proofs\<close>

text \<open>A string that opens with \<open><\<close> (code point 60), closes with \<open>>\<close> (62) and has
  neither character in between. Every generated token whose label has neither character
  is of this form.\<close>

definition angle_delimited :: "pystr \<Rightarrow> bool" where
  "angle_delimited w =
     (2 \<le> length w \<and> hd w = 60 \<and> last w = 62 \<and>
      60 \<notin> set (butlast (tl w)) \<and> 62 \<notin> set (butlast (tl w)))"





section \<open>Example data\<close>

text \<open>Example candidates: A = [0,10) with confidence 1.0, B = [5,15) with confidence 0.5,
  C = [12,20) with confidence 0.9.\<close>

definition cand_A :: entity where
  "cand_A = \<lparr>e_text = str_of ''0123456789'', e_label = JStr (str_of ''PHONE''),
     e_start = 0, e_end = 10, e_confidence = Fin 1\<rparr>"

definition cand_B :: entity where
  "cand_B = \<lparr>e_text = str_of ''5678901234'', e_label = JStr (str_of ''IDCN''),
     e_start = 5, e_end = 15, e_confidence = Fin (1 / 2)\<rparr>"

definition cand_C :: entity where
  "cand_C = \<lparr>e_text = str_of ''23456789'', e_label = JStr (str_of ''PERSON''),
     e_start = 12, e_end = 20, e_confidence = Fin (9 / 10)\<rparr>"

text \<open>The scenario of the specification: salt \<open>s0000000\<close>, one pattern with the label
  EMAIL, here the escaped literal \<open>a@b.com\<close>, and the text \<open>Contact a@b.com now\<close>.\<close>

definition demo_salt :: pystr where
  "demo_salt = str_of ''s0000000''"

definition demo_text :: pystr where
  "demo_text = str_of ''Contact a@b.com now''"

definition demo_regex :: regex_ner where
  "demo_regex = \<lparr>patterns = [(str_of ''EMAIL'', literal_finditer (str_of ''a@b.com''))]\<rparr>"

definition demo_masker :: masker where
  "demo_masker = \<lparr>salt = demo_salt, ner = RegexNER demo_regex, last_entities = []\<rparr>"

definition demo_token :: pystr where
  "demo_token = str_of ''<RG:EMAIL:yls6vutv>''"

definition demo_email :: entity where
  "demo_email = \<lparr>e_text = str_of ''a@b.com'', e_label = JStr (str_of ''EMAIL''),
     e_start = 8, e_end = 15, e_confidence = Fin 1\<rparr>"

text \<open>A reply of a completion function with a structured block inside prose, the object
  the block decodes to, and a library whose \<open>json.loads\<close> decodes that block and raises
  \<open>JSONDecodeError\<close> on any other string.\<close>

definition demo_block :: pystr where
  \<open>demo_block = str_of ''{"entities": [{"text": "a@b.com", "label": "EMAIL", "start": 8, "end": 15, "confidence": 0.9}, {"text": "now", "label": "TIME", "start": 16, "end": 19, "confidence": 0.3}, {"text": "Bob", "label": "PERSON", "start": 0, "end": 3, "confidence": 0.95}]}''\<close>

definition demo_reply :: pystr where
  "demo_reply = str_of ''Here is the result: '' @ demo_block @ str_of '' Done.''"

definition demo_data :: json where
  "demo_data = JObj [(str_of ''entities'', JArr [
     JObj [(str_of ''text'', JStr (str_of ''a@b.com'')), (str_of ''label'', JStr (str_of ''EMAIL'')),
           (str_of ''start'', JInt 8), (str_of ''end'', JInt 15), (str_of ''confidence'', JFloat (Fin (9 / 10)))],
     JObj [(str_of ''text'', JStr (str_of ''now'')), (str_of ''label'', JStr (str_of ''TIME'')),
           (str_of ''start'', JInt 16), (str_of ''end'', JInt 19), (str_of ''confidence'', JFloat (Fin (3 / 10)))],
     JObj [(str_of ''text'', JStr (str_of ''Bob'')), (str_of ''label'', JStr (str_of ''PERSON'')),
           (str_of ''start'', JInt 0), (str_of ''end'', JInt 3), (str_of ''confidence'', JFloat (Fin (95 / 100)))]])]"

definition demo_lib :: pylib where
  "demo_lib = \<lparr>json_loads = (\<lambda>s. if s = demo_block then Inr demo_data else Inl JSONDecodeError),
     float_of_str = (\<lambda>s. None),
     float_of_int = (\<lambda>i. Some (Fin (of_int i))),
     group_index = (\<lambda>n. Inl ReError)\<rparr>"

definition demo_llm :: llm_ner where
  "demo_llm = \<lparr>llm_reply = (\<lambda>t. Inr demo_reply), confidence_threshold = Fin (7 / 10),
     max_text_length = 2000\<rparr>"

definition demo_llm_silent :: llm_ner where
  "demo_llm_silent = \<lparr>llm_reply = (\<lambda>t. Inr (str_of ''I cannot help with that.'')),
     confidence_threshold = Fin (7 / 10), max_text_length = 2000\<rparr>"

definition demo_llm_entity :: entity where
  "demo_llm_entity = \<lparr>e_text = str_of ''a@b.com'', e_label = JStr (str_of ''EMAIL''),
     e_start = 8, e_end = 15, e_confidence = Fin (9 / 10)\<rparr>"

text \<open>A text with two occurrences of the same value, and a pattern that matches a lone
  surrogate code point, which UTF-8 cannot encode.\<close>

definition demo_text2 :: pystr where
  "demo_text2 = str_of ''a@b.com, a@b.com''"

definition demo_email_at :: "int \<Rightarrow> entity" where
  "demo_email_at i = \<lparr>e_text = str_of ''a@b.com'', e_label = JStr (str_of ''EMAIL''),
     e_start = i, e_end = i + 7, e_confidence = Fin 1\<rparr>"

definition surrogate_masker :: masker where
  "surrogate_masker = \<lparr>salt = demo_salt,
     ner = RegexNER \<lparr>patterns = [(str_of ''SECRET'', literal_finditer [0xD800])]\<rparr>,
     last_entities = []\<rparr>"

definition surrogate_entity :: entity where
  "surrogate_entity = \<lparr>e_text = [0xD800], e_label = JStr (str_of ''SECRET''),
     e_start = 0, e_end = 1, e_confidence = Fin 1\<rparr>"

text \<open>
  A delegated extractor with a text limit of five characters. Its completion function
  replies with one candidate, the span from 5 to 12 with the truncation marker as its
  text; \<open>cut_lib\<close> decodes this reply.
\<close>

definition cut_reply :: pystr where
  \<open>cut_reply = str_of ''{"entities": [{"text": "'' @ truncation_marker @
     str_of ''", "label": "NOTE", "start": 5, "end": 12, "confidence": 0.9}]}''\<close>

definition cut_data :: json where
  "cut_data = JObj [(str_of ''entities'', JArr [
     JObj [(str_of ''text'', JStr truncation_marker), (str_of ''label'', JStr (str_of ''NOTE'')),
           (str_of ''start'', JInt 5), (str_of ''end'', JInt 12),
           (str_of ''confidence'', JFloat (Fin (9 / 10)))]])]"

definition cut_lib :: pylib where
  "cut_lib = demo_lib\<lparr>json_loads := (\<lambda>s. if s = cut_reply then Inr cut_data else Inl JSONDecodeError)\<rparr>"

definition cut_llm :: llm_ner where
  "cut_llm = \<lparr>llm_reply = (\<lambda>t. Inr cut_reply), confidence_threshold = Fin (7 / 10),
     max_text_length = 5\<rparr>"

definition cut_entity :: entity where
  "cut_entity = \<lparr>e_text = truncation_marker, e_label = JStr (str_of ''NOTE''),
     e_start = 5, e_end = 12, e_confidence = Fin (9 / 10)\<rparr>"

text \<open>
  A reply of two thousand opening square brackets (code point 91). It has no block in
  braces, and \<open>json.loads\<close> gives up on an array nested this deep with
  \<open>RecursionError\<close>, which \<open>deep_lib\<close> reproduces.
\<close>

definition deep_reply :: pystr where
  "deep_reply = replicate 2000 91"

definition deep_lib :: pylib where
  "deep_lib = demo_lib\<lparr>json_loads := (\<lambda>s. if s = deep_reply then Inl RecursionError else Inl JSONDecodeError)\<rparr>"

definition deep_llm :: llm_ner where
  "deep_llm = \<lparr>llm_reply = (\<lambda>t. Inr deep_reply), confidence_threshold = Fin (7 / 10),
     max_text_length = 2000\<rparr>"

text \<open>A completion function that raises, and a masker whose hybrid extractor combines it
  with the pattern of the scenario.\<close>

definition failing_llm :: llm_ner where
  "failing_llm = \<lparr>llm_reply = (\<lambda>t. Inl RuntimeError), confidence_threshold = Fin (7 / 10),
     max_text_length = 2000\<rparr>"

definition hybrid_masker :: masker where
  "hybrid_masker = \<lparr>salt = demo_salt, ner = HybridNER (Some demo_regex) (Some failing_llm),
     last_entities = []\<rparr>"


text \<open>The mapping that masking the scenario's text returns, and a mapping whose first
  value completes an occurrence of its second key.\<close>

definition cascade_mapping :: mapping where
  "cascade_mapping = [(str_of ''<k1>'', str_of ''<k''), (str_of ''<k2>'', str_of ''zz'')]"

definition demo_mapping :: mapping where
  "demo_mapping = [(demo_token, str_of ''a@b.com'')]"

section \<open>Properties of the merge step\<close>

lemma is_overlap_sym: "is_overlap a b = is_overlap b a"
  by (auto simp: is_overlap_def)

lemma is_overlap_spec: "is_overlap a b = spec_overlap b a"
  by (auto simp: is_overlap_def spec_overlap_def)

lemma spec_overlap_sym: "spec_overlap a b = spec_overlap b a"
  by (auto simp: spec_overlap_def)

lemma scan_merged_none:
  "\<forall>x\<in>set merged. \<not> is_overlap e x \<Longrightarrow> scan_merged e merged = (False, merged)"
  by (induction merged) auto

lemma scan_merged_cases:
  "(scan_merged e merged = (False, merged) \<and> (\<forall>x\<in>set merged. \<not> is_overlap e x)) \<or>
   (\<exists>pre x post. merged = pre @ x # post \<and> (\<forall>y\<in>set pre. \<not> is_overlap e y) \<and> is_overlap e x \<and>
      scan_merged e merged =
        (True, pre @ (if float_gt (e_confidence e) (e_confidence x) then e else x) # post))"
proof (induction merged)
  case Nil
  then show ?case by simp
next
  case (Cons a merged)
  show ?case
  proof (cases "is_overlap e a")
    case True
    have "a # merged = [] @ a # merged \<and> (\<forall>y\<in>set []. \<not> is_overlap e y) \<and> is_overlap e a \<and>
      scan_merged e (a # merged) =
        (True, [] @ (if float_gt (e_confidence e) (e_confidence a) then e else a) # merged)"
      using True by simp
    then show ?thesis by blast
  next
    case False
    from Cons.IH show ?thesis
    proof (elim disjE exE conjE)
      assume "scan_merged e merged = (False, merged)" "\<forall>x\<in>set merged. \<not> is_overlap e x"
      with False show ?thesis by simp
    next
      fix pre x post
      assume h: "merged = pre @ x # post" "\<forall>y\<in>set pre. \<not> is_overlap e y" "is_overlap e x"
        "scan_merged e merged =
          (True, pre @ (if float_gt (e_confidence e) (e_confidence x) then e else x) # post)"
      have "a # merged = (a # pre) @ x # post \<and> (\<forall>y\<in>set (a # pre). \<not> is_overlap e y) \<and>
        is_overlap e x \<and>
        scan_merged e (a # merged) =
          (True, (a # pre) @ (if float_gt (e_confidence e) (e_confidence x) then e else x) # post)"
        using h False by simp
      then show ?thesis by blast
    qed
  qed
qed

text \<open>
  Among accepted entities that start no later than the candidate and do not overlap each
  other, at most one overlaps the candidate.
\<close>

lemma overlap_unique:
  assumes "is_overlap e x" and "\<not> is_overlap x y"
    and "e_start x \<le> e_start e" and "e_start y \<le> e_start e"
  shows "\<not> is_overlap e y"
  using assms by (auto simp: is_overlap_def)

definition merge_inv :: "entity list \<Rightarrow> bool" where
  "merge_inv merged = sorted_wrt (\<lambda>a b. \<not> is_overlap a b) merged"

lemma merge_inv_append:
  "merge_inv merged \<Longrightarrow> \<forall>x\<in>set merged. \<not> is_overlap e x \<Longrightarrow> merge_inv (merged @ [e])"
  by (auto simp: merge_inv_def sorted_wrt_append is_overlap_sym)

lemma merge_inv_replace:
  assumes inv: "merge_inv (pre @ x # post)"
    and ov: "is_overlap e x"
    and le: "\<forall>m\<in>set (pre @ x # post). e_start m \<le> e_start e"
  shows "merge_inv (pre @ e # post)"
proof -
  have pre: "\<forall>y\<in>set pre. \<not> is_overlap y e"
  proof
    fix y assume y: "y \<in> set pre"
    then have "\<not> is_overlap y x" using inv by (auto simp: merge_inv_def sorted_wrt_append)
    then have "\<not> is_overlap x y" by (simp add: is_overlap_sym)
    then have "\<not> is_overlap e y" using overlap_unique [OF ov] le y by auto
    then show "\<not> is_overlap y e" by (simp add: is_overlap_sym)
  qed
  have post: "\<forall>y\<in>set post. \<not> is_overlap e y"
  proof
    fix y assume y: "y \<in> set post"
    then have "\<not> is_overlap x y" using inv by (auto simp: merge_inv_def sorted_wrt_append)
    then show "\<not> is_overlap e y" using overlap_unique [OF ov] le y by auto
  qed
  show ?thesis using inv pre post by (auto simp: merge_inv_def sorted_wrt_append)
qed

lemma scan_merged_step:
  assumes inv: "merge_inv merged"
    and le: "\<forall>m\<in>set merged. e_start m \<le> e_start e"
    and sc: "scan_merged e merged = (ov, merged')"
  shows "merge_inv (if ov then merged' else merged' @ [e]) \<and>
         set (if ov then merged' else merged' @ [e]) \<subseteq> insert e (set merged)"
proof -
  from scan_merged_cases [of e merged] show ?thesis
  proof (elim disjE exE conjE)
    assume "scan_merged e merged = (False, merged)" "\<forall>x\<in>set merged. \<not> is_overlap e x"
    then show ?thesis using sc inv by (auto intro: merge_inv_append)
  next
    fix pre x post
    assume h: "merged = pre @ x # post" "is_overlap e x"
      "scan_merged e merged =
        (True, pre @ (if float_gt (e_confidence e) (e_confidence x) then e else x) # post)"
    have "merge_inv (pre @ e # post)"
      using merge_inv_replace [of pre x post e] inv le h by simp
    then show ?thesis using sc inv h by (auto split: if_splits)
  qed
qed

lemma merge_loop_inv:
  "merge_inv merged \<Longrightarrow> sorted (map e_start cs) \<Longrightarrow>
   \<forall>m\<in>set merged. \<forall>c\<in>set cs. e_start m \<le> e_start c \<Longrightarrow>
   merge_inv (merge_loop merged cs)"
proof (induction cs arbitrary: merged)
  case Nil
  then show ?case by simp
next
  case (Cons c cs)
  obtain ov merged' where sc: "scan_merged c merged = (ov, merged')"
    by (cases "scan_merged c merged") auto
  let ?m = "if ov then merged' else merged' @ [c]"
  have st: "merge_inv ?m \<and> set ?m \<subseteq> insert c (set merged)"
    using scan_merged_step [OF Cons.prems(1) _ sc] Cons.prems(3) by simp
  have "\<forall>m\<in>set ?m. \<forall>d\<in>set cs. e_start m \<le> e_start d"
  proof (intro ballI)
    fix m d assume m: "m \<in> set ?m" and d: "d \<in> set cs"
    from m st have "m = c \<or> m \<in> set merged" by auto
    then show "e_start m \<le> e_start d"
      using Cons.prems(2,3) d by auto
  qed
  then have "merge_inv (merge_loop ?m cs)"
    using Cons.IH [of ?m] st Cons.prems(2) by simp
  then show ?case using sc by simp
qed

lemma merge_entities_inv: "merge_inv (merge_entities es)"
proof (cases "es = []")
  case True
  then show ?thesis by (simp add: merge_entities_def merge_inv_def)
next
  case False
  have "merge_inv (merge_loop [] (sort_key e_start es))"
    by (rule merge_loop_inv) (simp_all add: merge_inv_def)
  then show ?thesis using False by (simp add: merge_entities_def)
qed

text \<open>
  Claim C2. For every input list of entities, no two entities of the list returned by the
  merge step overlap: the code's own overlap test fails on every pair of distinct
  positions, and their half-open spans \<open>[start, end)\<close> have no index in common. This holds
  for any number of mutually overlapping candidates.
\<close>

theorem merge_entities_non_overlapping:
  assumes "i < j" and "j < length (merge_entities es)"
  shows "\<not> is_overlap (merge_entities es ! i) (merge_entities es ! j) \<and>
         {e_start (merge_entities es ! i) ..< e_end (merge_entities es ! i)} \<inter>
         {e_start (merge_entities es ! j) ..< e_end (merge_entities es ! j)} = {}"
proof -
  have "\<not> is_overlap (merge_entities es ! i) (merge_entities es ! j)"
    using merge_entities_inv [of es] assms
    by (simp add: merge_inv_def sorted_wrt_iff_nth_less)
  then show ?thesis by (auto simp: is_overlap_def)
qed

lemma merge_ABC: "merge_entities [cand_C, cand_B, cand_A] = [cand_A, cand_C]"
  by (simp add: merge_entities_def cand_A_def cand_B_def cand_C_def is_overlap_def float_gt_def)

theorem merge_entities_non_overlapping_witness:
  "(0::nat) < 1 \<and> 1 < length (merge_entities [cand_C, cand_B, cand_A]) \<and>
   \<not> is_overlap (merge_entities [cand_C, cand_B, cand_A] ! 0) (merge_entities [cand_C, cand_B, cand_A] ! 1) \<and>
   {e_start (merge_entities [cand_C, cand_B, cand_A] ! 0) ..< e_end (merge_entities [cand_C, cand_B, cand_A] ! 0)} \<inter>
   {e_start (merge_entities [cand_C, cand_B, cand_A] ! 1) ..< e_end (merge_entities [cand_C, cand_B, cand_A] ! 1)} = {}"
proof -
  have h: "(0::nat) < 1" "1 < length (merge_entities [cand_C, cand_B, cand_A])"
    by (simp_all add: merge_ABC)
  show ?thesis
    using h merge_entities_non_overlapping [OF h] by blast
qed

lemma scan_merged_spec:
  "scan_merged e merged =
     (case find (\<lambda>a. spec_overlap a e) merged of
        None \<Rightarrow> (False, merged)
      | Some a \<Rightarrow> (True,
          if float_gt (e_confidence e) (e_confidence a)
          then merged[length (takeWhile (\<lambda>a. \<not> spec_overlap a e) merged) := e]
          else merged))"
  by (induction merged) (auto simp: is_overlap_spec split: option.splits)

lemma merge_loop_spec: "merge_loop merged cs = foldl spec_accept merged cs"
  by (induction cs arbitrary: merged)
     (auto simp: scan_merged_spec spec_accept_def split: option.splits)

text \<open>
  Claim C3. The merge step computes exactly the specification's reference algorithm
  (sort ascending by start; per candidate, the first overlapping accepted entity is replaced
  iff the candidate's confidence is strictly greater, else the candidate is dropped; a
  candidate overlapping nothing is appended). For A = [0,10) with confidence 1.0 and
  B = [5,15) with confidence 0.5, in either input order, the result is A alone.
\<close>

theorem merge_entities_refines_spec:
  "merge_entities es = spec_merge es \<and>
   merge_entities
     [\<lparr>e_text = ta, e_label = la, e_start = 0, e_end = 10, e_confidence = Fin 1\<rparr>,
      \<lparr>e_text = tb, e_label = lb, e_start = 5, e_end = 15, e_confidence = Fin (1 / 2)\<rparr>] =
     [\<lparr>e_text = ta, e_label = la, e_start = 0, e_end = 10, e_confidence = Fin 1\<rparr>] \<and>
   merge_entities
     [\<lparr>e_text = tb, e_label = lb, e_start = 5, e_end = 15, e_confidence = Fin (1 / 2)\<rparr>,
      \<lparr>e_text = ta, e_label = la, e_start = 0, e_end = 10, e_confidence = Fin 1\<rparr>] =
     [\<lparr>e_text = ta, e_label = la, e_start = 0, e_end = 10, e_confidence = Fin 1\<rparr>]"
proof (intro conjI)
  show "merge_entities es = spec_merge es"
    by (simp add: merge_entities_def spec_merge_def merge_loop_spec)
qed (simp_all add: merge_entities_def is_overlap_def float_gt_def)

theorem merge_entities_refines_spec_witness:
  "merge_entities [cand_C, cand_B, cand_A] = spec_merge [cand_C, cand_B, cand_A] \<and>
   spec_merge [cand_C, cand_B, cand_A] = [cand_A, cand_C]"
  using merge_entities_refines_spec [of "[cand_C, cand_B, cand_A]"] merge_ABC by simp

lemma sorted_wrt_insort_sym:
  assumes "\<And>a b. R a b \<Longrightarrow> R b a"
  shows "sorted_wrt R xs \<Longrightarrow> \<forall>y\<in>set xs. R x y \<Longrightarrow> sorted_wrt R (insort_key f x xs)"
  using assms by (induction xs) (auto simp: set_insort_key)

lemma sorted_wrt_sort_key_sym:
  assumes "\<And>a b. R a b \<Longrightarrow> R b a"
  shows "sorted_wrt R xs \<Longrightarrow> sorted_wrt R (sort_key f xs)"
proof (induction xs)
  case Nil
  then show ?case by simp
next
  case (Cons x xs)
  then show ?case
    using sorted_wrt_insort_sym [of R "sort_key f xs" x f] assms by simp
qed

lemma merge_loop_disjoint:
  "sorted_wrt (\<lambda>a b. \<not> spec_overlap a b) (merged @ cs) \<Longrightarrow> merge_loop merged cs = merged @ cs"
proof (induction cs arbitrary: merged)
  case Nil
  then show ?case by simp
next
  case (Cons c cs)
  have "\<forall>x\<in>set merged. \<not> is_overlap c x"
    using Cons.prems by (auto simp: sorted_wrt_append is_overlap_spec)
  then have sc: "scan_merged c merged = (False, merged)" by (rule scan_merged_none)
  have "merge_loop (merged @ [c]) cs = (merged @ [c]) @ cs"
    using Cons.prems by (intro Cons.IH) simp
  then show ?case using sc by simp
qed

text \<open>
  Claim C10. On an input whose entities are pairwise non-overlapping (by the
  specification's overlap test, which is the code's), the merge step drops and replaces
  nothing: the result is the input sorted ascending by start, ties in input order.
\<close>

theorem merge_entities_disjoint_is_sort:
  assumes "\<forall>i j. i < j \<and> j < length es \<longrightarrow> \<not> spec_overlap (es ! i) (es ! j)"
  shows "merge_entities es = sort_key e_start es"
proof -
  have "sorted_wrt (\<lambda>a b. \<not> spec_overlap a b) es"
    using assms by (simp add: sorted_wrt_iff_nth_less)
  then have "sorted_wrt (\<lambda>a b. \<not> spec_overlap a b) (sort_key e_start es)"
    by (rule sorted_wrt_sort_key_sym [rotated]) (simp add: spec_overlap_sym)
  then have "merge_loop [] (sort_key e_start es) = sort_key e_start es"
    using merge_loop_disjoint [of "[]"] by simp
  then show ?thesis by (simp add: merge_entities_def)
qed

lemma disjoint_CA: "\<forall>i j. i < j \<and> j < length [cand_C, cand_A] \<longrightarrow> \<not> spec_overlap ([cand_C, cand_A] ! i) ([cand_C, cand_A] ! j)"
  by (auto simp: less_Suc_eq nth_Cons' spec_overlap_def cand_A_def cand_C_def)

theorem merge_entities_disjoint_is_sort_witness:
  "merge_entities [cand_C, cand_A] = sort_key e_start [cand_C, cand_A] \<and>
   sort_key e_start [cand_C, cand_A] = [cand_A, cand_C]"
  using merge_entities_disjoint_is_sort [OF disjoint_CA]
  by (simp add: cand_A_def cand_C_def)

section \<open>Properties of the delegated extractor\<close>

lemma index_of_num_of: "index_of v = Some i \<Longrightarrow> num_of v = Some (Fin (of_int i))"
  by (cases v) auto

lemma parse_item_valid:
  assumes "parse_item lib t item = Inr (Some e)"
  shows "0 \<le> e_start e \<and> e_start e < e_end e \<and> e_end e \<le> int (length t) \<and>
         e_text e = py_slice t (e_start e) (e_end e)"
proof -
  obtain kvs where item: "item = JObj kvs"
    using assms by (cases item) (auto simp: parse_item_def)
  let ?start = "dict_get kvs ''start'' (JInt 0)"
  let ?stop = "dict_get kvs ''end'' (JInt 0)"
  from assms item obtain i j where ij: "index_of ?start = Some i" "index_of ?stop = Some j"
    by (auto simp: parse_item_def Let_def split: option.splits if_splits)
  have ns: "num_of ?start = Some (Fin (of_int i))" "num_of ?stop = Some (Fin (of_int j))"
    using ij by (simp_all add: index_of_num_of)
  from assms item ij ns show ?thesis
    by (auto simp: parse_item_def Let_def split: option.splits if_splits sum.splits)
qed

lemma parse_items_valid:
  "parse_items lib t items = Inr es \<Longrightarrow> e \<in> set es \<Longrightarrow>
   0 \<le> e_start e \<and> e_start e < e_end e \<and> e_end e \<le> int (length t) \<and>
   e_text e = py_slice t (e_start e) (e_end e)"
proof (induction items arbitrary: es)
  case Nil
  then show ?case by simp
next
  case (Cons item items)
  then show ?case
    by (auto split: sum.splits option.splits dest: parse_item_valid)
qed

lemma parse_llm_response_valid:
  assumes "parse_llm_response lib response t = Inr es" and "e \<in> set es"
  shows "0 \<le> e_start e \<and> e_start e < e_end e \<and> e_end e \<le> int (length t) \<and>
         e_text e = py_slice t (e_start e) (e_end e)"
  using assms
  by (auto simp: parse_llm_response_def fallback_parse_def split: sum.splits if_splits
           dest: parse_items_valid)

text \<open>
  What the delegated extractor checks: every entity it returns lies inside the text that
  was sent to the completion function, which for a long input is the prefix of
  \<open>max_text_length\<close> characters with the marker appended, not the input; its text is the
  slice \<open>[start:end]\<close> of that text; and its confidence is not below the threshold.
\<close>

lemma llm_extract_checked:
  assumes "llm_extract lib self text = Inr entities" and "entity \<in> set entities"
  shows "0 \<le> e_start entity \<and> e_start entity < e_end entity \<and>
         e_end entity \<le> int (length (truncate_text self text)) \<and>
         e_text entity = py_slice (truncate_text self text) (e_start entity) (e_end entity) \<and>
         float_ge (e_confidence entity) (confidence_threshold self)"
  using assms
  by (auto simp: llm_extract_def Let_def split: sum.splits dest: parse_llm_response_valid)

lemma demo_json_block: "json_block demo_reply = demo_block"
  by (simp add: json_block_def find_json_block_def demo_reply_def demo_block_def str_of_def Let_def)

lemma demo_truncate: "truncate_text demo_llm demo_text = demo_text"
  by (simp add: truncate_text_def demo_llm_def demo_text_def str_of_def)

lemma demo_llm_extract: "llm_extract demo_lib demo_llm demo_text = Inr [demo_llm_entity]"
  unfolding llm_extract_def Let_def demo_truncate parse_llm_response_def
  apply (simp add: demo_llm_def demo_lib_def demo_json_block)
  apply (simp add: demo_data_def dict_get_def str_of_def parse_item_def demo_text_def py_slice_def norm_index_def float_ge_def demo_llm_entity_def demo_llm_def)
  done

text \<open>
  Claim C4 does not hold of the code. \<open>extract_entities\<close> passes the truncated text
  with the marker appended to \<open>_parse_llm_response\<close>, whose parameter is named
  \<open>original_text\<close>, so a candidate is checked against the marker too. For the input
  \<open>abcdefgh\<close> and a limit of five characters the extractor returns an entity with the
  span from 5 to 12, which ends past the input of length 8, and whose text is the marker,
  where the slice of the input is \<open>fgh\<close>.
\<close>

theorem llm_extract_marker_entity:
  "llm_extract cut_lib cut_llm (str_of ''abcdefgh'') = Inr [cut_entity] \<and>
   e_start cut_entity = 5 \<and> e_end cut_entity = 12 \<and>
   int (length (str_of ''abcdefgh'')) = 8 \<and>
   e_text cut_entity = truncation_marker \<and>
   py_slice (str_of ''abcdefgh'') (e_start cut_entity) (e_end cut_entity) = str_of ''fgh''"
proof -
  have t: "truncate_text cut_llm (str_of ''abcdefgh'') = str_of ''abcde'' @ truncation_marker"
    by (simp add: truncate_text_def cut_llm_def slice_to_def norm_index_def str_of_def)
  have b: "json_block cut_reply = cut_reply"
    by (simp add: json_block_def find_json_block_def cut_reply_def truncation_marker_def
          str_of_def Let_def)
  have e: "llm_extract cut_lib cut_llm (str_of ''abcdefgh'') = Inr [cut_entity]"
    unfolding llm_extract_def Let_def t parse_llm_response_def
    apply (simp add: cut_llm_def cut_lib_def demo_lib_def b)
    apply (simp add: cut_data_def dict_get_def str_of_def parse_item_def truncation_marker_def
        py_slice_def norm_index_def float_ge_def cut_entity_def cut_llm_def)
    done
  show ?thesis
    by (simp add: e) (simp add: cut_entity_def str_of_def py_slice_def norm_index_def)
qed

text \<open>
  Claim C9, as amended. When the completion function replies and decoding the reply's
  embedded block (or the whole reply, when it has no block) raises, the outcome depends
  on the exception. For \<open>JSONDecodeError\<close>, which a text that is not valid JSON raises,
  and for any other \<open>ValueError\<close> or \<open>KeyError\<close>, the delegated extractor returns
  the empty sequence and raises nothing. Any other exception is raised again as
  \<open>NERError\<close>.
\<close>

theorem llm_unparseable_reply_empty:
  assumes "llm_reply self (truncate_text self text) = Inr response"
    and "json_loads lib (json_block response) = Inl x"
  shows "llm_extract lib self text =
     (if x \<in> {JSONDecodeError, KeyError, ValueError, UnicodeEncodeError} then Inr []
      else Inl (NERError x))"
  using assms
  by (simp add: llm_extract_def parse_llm_response_def caught_by_parse_def fallback_parse_def Let_def)


lemma silent_block: "json_block (str_of ''I cannot help with that.'') = str_of ''I cannot help with that.''"
  by (simp add: json_block_def find_json_block_def str_of_def Let_def)

theorem llm_unparseable_reply_empty_witness:
  "llm_reply demo_llm_silent (truncate_text demo_llm_silent demo_text) =
     Inr (str_of ''I cannot help with that.'') \<and>
   json_loads demo_lib (json_block (str_of ''I cannot help with that.'')) = Inl JSONDecodeError \<and>
   llm_extract demo_lib demo_llm_silent demo_text = Inr []"
proof -
  have r: "llm_reply demo_llm_silent (truncate_text demo_llm_silent demo_text) = Inr (str_of ''I cannot help with that.'')"
    by (simp add: demo_llm_silent_def)
  have j: "json_loads demo_lib (json_block (str_of ''I cannot help with that.'')) = Inl JSONDecodeError"
    unfolding silent_block by (simp add: demo_lib_def demo_block_def str_of_def)
  show ?thesis using llm_unparseable_reply_empty [OF r j] r j by simp
qed

text \<open>
  Claim C9 as stated fails for a reply whose decoding fails in another way: on two
  thousand opening square brackets \<open>json.loads\<close> raises \<open>RecursionError\<close>, which the
  handler of \<open>_parse_llm_response\<close> does not list, and the call raises \<open>NERError\<close>.
\<close>

theorem llm_deep_reply_raises:
  "llm_reply deep_llm (truncate_text deep_llm demo_text) = Inr deep_reply \<and>
   json_block deep_reply = deep_reply \<and>
   json_loads deep_lib deep_reply = Inl RecursionError \<and>
   llm_extract deep_lib deep_llm demo_text = Inl (NERError RecursionError)"
proof -
  have b: "json_block deep_reply = deep_reply"
    by (simp add: json_block_def find_json_block_def deep_reply_def Let_def)
  show ?thesis
    by (simp add: b llm_extract_def parse_llm_response_def caught_by_parse_def Let_def
          deep_llm_def deep_lib_def demo_lib_def)
qed

section \<open>The token of the scenario, computed\<close>

text \<open>Unfolding rules for evaluating the recursions on numerals by rewriting.\<close>

lemma schedule_unfold:
  "schedule n ws = (if n = 0 then [] else
     hd ws # schedule (n - 1) (tl ws @ [rotl 1 (ws ! 13 XOR ws ! 8 XOR ws ! 2 XOR ws ! 0)]))"
  by (cases n) simp_all

lemma blocks_unfold:
  "blocks n h bs = (if n = 0 then h else blocks (n - 1) (compress h (take 64 bs)) (drop 64 bs))"
  by (cases n) simp_all

lemma replicate_unfold: "replicate n x = (if n = 0 then [] else x # replicate (n - 1) x)"
  by (cases n) simp_all

lemma demo_utf8:
  "utf8_encode (demo_salt @ str_of ''EMAIL'' @ str_of ''a@b.com'') = Some [115, 48, 48, 48, 48, 48, 48, 48, 69, 77, 65, 73, 76, 97, 64, 98, 46, 99, 111, 109]"
  by (simp add: demo_salt_def str_of_def utf8_char_def)

lemma demo_sha1:
  "sha1 [115, 48, 48, 48, 48, 48, 48, 48, 69, 77, 65, 73, 76, 97, 64, 98, 46, 99, 111, 109] = [194, 229, 234, 210, 117, 220, 89, 239, 59, 247, 10, 251, 234, 86, 148, 94, 97, 97, 86, 24]"
  by (simp add: sha1_def sha1_pad_def be_bytes64_def replicate_unfold blocks_unfold
        schedule_unfold rotl_def sha_f_def sha_k_def word_bytes_def)

lemma demo_hash8: "hash8 [115, 48, 48, 48, 48, 48, 48, 48, 69, 77, 65, 73, 76, 97, 64, 98, 46, 99, 111, 109] = str_of ''yls6vutv''"
  unfolding hash8_def demo_sha1
  by (simp add: b32_quint_def b32_digit_def b32_alphabet_def str_of_def rstrip_eq_def ascii_lower_def Let_def)

lemma demo_token_eval: "token demo_salt (str_of ''EMAIL'') (str_of ''a@b.com'') = Inr demo_token"
  unfolding token_def short_hash_def demo_utf8
  by (simp add: demo_hash8 demo_token_def str_of_def)

section \<open>Properties of the mask engine\<close>

lemma mask_result:
  assumes "mask lib self text = (Inr (masked_text, mapping, entities), self')"
  shows "\<exists>extracted. extract_entities lib (ner self) text = Inr extracted \<and>
           entities = sort_desc extracted \<and>
           mask_loop (salt self) [] text entities = Inr (masked_text, mapping) \<and>
           self' = self\<lparr>last_entities := entities\<rparr>"
  using assms by (auto simp: mask_def Let_def split: sum.splits prod.splits)

lemma mask_loop_mapping:
  "mask_loop s mapping masked es = Inr (masked', mapping') \<Longrightarrow>
   map_of mapping' tk =
     (case map_of mapping tk of
        Some v \<Rightarrow> Some v
      | None \<Rightarrow> map_option e_text (find (\<lambda>e. entity_token s e = Inr tk) es))"
proof (induction es arbitrary: mapping masked)
  case Nil
  then show ?case by (auto split: option.splits)
next
  case (Cons e es)
  from Cons.prems obtain t where t: "entity_token s e = Inr t"
    by (auto split: sum.splits)
  let ?m = "if map_of mapping t = None then mapping @ [(t, e_text e)] else mapping"
  from Cons.prems t have "mask_loop s ?m
      (slice_to masked (e_start e) @ t @ slice_from masked (e_end e)) es = Inr (masked', mapping')"
    by simp
  from Cons.IH [OF this] have ih: "map_of mapping' tk =
     (case map_of ?m tk of
        Some v \<Rightarrow> Some v
      | None \<Rightarrow> map_option e_text (find (\<lambda>e. entity_token s e = Inr tk) es))" .
  show ?case
    unfolding ih using t
    by (auto simp: map_add_def split: option.splits)
qed

lemma mask_loop_distinct:
  "mask_loop s mapping masked es = Inr (masked', mapping') \<Longrightarrow>
   distinct (map fst mapping) \<Longrightarrow> distinct (map fst mapping')"
proof (induction es arbitrary: mapping masked)
  case Nil
  then show ?case by simp
next
  case (Cons e es)
  from Cons.prems obtain t where t: "entity_token s e = Inr t"
    by (auto split: sum.splits)
  let ?m = "if map_of mapping t = None then mapping @ [(t, e_text e)] else mapping"
  have d: "distinct (map fst ?m)"
    using Cons.prems(2) by (auto simp: map_of_eq_None_iff)
  from Cons.prems t have "mask_loop s ?m
      (slice_to masked (e_start e) @ t @ slice_from masked (e_end e)) es = Inr (masked', mapping')"
    by simp
  from Cons.IH [OF this d] show ?case .
qed

text \<open>
  Claim C8. In the mapping a successful \<open>mask\<close> call returns, keys are unique, the keys
  are exactly the tokens of the processed entities, and the value under a token is the
  text of the first entity, in processing order, that produced this token: a later
  entity with the same token does not overwrite it.
\<close>

theorem mask_mapping_write_once:
  assumes "mask lib self text = (Inr (masked_text, mapping, entities), self')"
  shows "distinct (map fst mapping) \<and>
         fst ` set mapping = {tk. \<exists>e\<in>set entities. entity_token (salt self) e = Inr tk} \<and>
         (\<forall>tk. map_of mapping tk =
            map_option e_text (find (\<lambda>e. entity_token (salt self) e = Inr tk) entities))"
proof -
  from mask_result [OF assms]
  have ml: "mask_loop (salt self) [] text entities = Inr (masked_text, mapping)" by blast
  have m: "map_of mapping tk =
      map_option e_text (find (\<lambda>e. entity_token (salt self) e = Inr tk) entities)" for tk
    using mask_loop_mapping [OF ml, of tk] by simp
  have d: "distinct (map fst mapping)"
    using mask_loop_distinct [OF ml] by simp
  have k: "fst ` set mapping = {tk. \<exists>e\<in>set entities. entity_token (salt self) e = Inr tk}"
  proof (rule set_eqI)
    fix tk
    have "tk \<in> fst ` set mapping \<longleftrightarrow> map_of mapping tk \<noteq> None"
      by (simp add: map_of_eq_None_iff)
    also have "\<dots> \<longleftrightarrow> find (\<lambda>e. entity_token (salt self) e = Inr tk) entities \<noteq> None"
      by (simp add: m)
    also have "\<dots> \<longleftrightarrow> (\<exists>e\<in>set entities. entity_token (salt self) e = Inr tk)"
      by (auto simp: find_None_iff)
    finally show "tk \<in> fst ` set mapping \<longleftrightarrow>
        tk \<in> {tk. \<exists>e\<in>set entities. entity_token (salt self) e = Inr tk}" by simp
  qed
  from d k m show ?thesis by blast
qed

lemma demo_extract2:
  "extract_entities demo_lib (ner demo_masker) demo_text2 = Inr [demo_email_at 0, demo_email_at 9]"
  by (simp add: demo_masker_def demo_regex_def regex_extract_def literal_finditer_def
        demo_text2_def demo_email_at_def str_of_def py_slice_def norm_index_def)

lemma demo_sort2: "sort_desc [demo_email_at 0, demo_email_at 9] = [demo_email_at 9, demo_email_at 0]"
  by (simp add: sort_desc_def demo_email_at_def)

lemma demo_entity_token: "entity_token demo_salt (demo_email_at i) = Inr demo_token"
  by (simp add: entity_token_def demo_email_at_def demo_token_eval)

lemma demo_mask2:
  "mask demo_lib demo_masker demo_text2 =
     (Inr (demo_token @ str_of '', '' @ demo_token, [(demo_token, str_of ''a@b.com'')],
           [demo_email_at 9, demo_email_at 0]),
      demo_masker\<lparr>last_entities := [demo_email_at 9, demo_email_at 0]\<rparr>)"
proof -
  have s: "salt demo_masker = demo_salt" by (simp add: demo_masker_def)
  have ml: "mask_loop demo_salt [] demo_text2 [demo_email_at 9, demo_email_at 0] =
      Inr (demo_token @ str_of '', '' @ demo_token, [(demo_token, str_of ''a@b.com'')])"
    apply (simp add: demo_entity_token)
    apply (simp add: demo_email_at_def demo_text2_def demo_token_def str_of_def
        slice_to_def slice_from_def norm_index_def)
    done
  show ?thesis
    unfolding mask_def demo_extract2
    by (simp add: demo_sort2 s ml Let_def del: mask_loop.simps)
qed

theorem mask_mapping_write_once_witness:
  "mask demo_lib demo_masker demo_text2 =
     (Inr (demo_token @ str_of '', '' @ demo_token, [(demo_token, str_of ''a@b.com'')],
           [demo_email_at 9, demo_email_at 0]),
      demo_masker\<lparr>last_entities := [demo_email_at 9, demo_email_at 0]\<rparr>) \<and>
   distinct (map fst [(demo_token, str_of ''a@b.com'')]) \<and>
   fst ` set [(demo_token, str_of ''a@b.com'')] =
     {tk. \<exists>e\<in>set [demo_email_at 9, demo_email_at 0]. entity_token (salt demo_masker) e = Inr tk} \<and>
   (\<forall>tk. map_of [(demo_token, str_of ''a@b.com'')] tk =
      map_option e_text
        (find (\<lambda>e. entity_token (salt demo_masker) e = Inr tk) [demo_email_at 9, demo_email_at 0]))"
  using mask_mapping_write_once [OF demo_mask2] demo_mask2 by blast

text \<open>
  Claim C6, as amended. A \<open>mask\<close> call either returns its result or raises
  \<open>MaskingError\<close>, never both. When the extraction raises, the call raises and leaves the
  masker as it was. When the extraction returns, the slot \<open>last_entities\<close> holds the
  extracted entities, sorted, whether the substitution then raises or not. When the
  delegated extractor raises, the hybrid extraction raises the same exception, whatever the
  pattern extractor found.
\<close>

theorem mask_failure:
  "(extract_entities lib (ner self) text = Inl x \<longrightarrow>
      mask lib self text = (Inl (MaskingError x), self)) \<and>
   (extract_entities lib (ner self) text = Inr extracted \<longrightarrow>
      snd (mask lib self text) = self\<lparr>last_entities := sort_desc extracted\<rparr> \<and>
      (mask_loop (salt self) [] text (sort_desc extracted) = Inl y \<longrightarrow>
         fst (mask lib self text) = Inl (MaskingError y)) \<and>
      (mask_loop (salt self) [] text (sort_desc extracted) = Inr (masked_text, mapping) \<longrightarrow>
         fst (mask lib self text) = Inr (masked_text, mapping, sort_desc extracted))) \<and>
   (llm_extract lib l text = Inl x \<longrightarrow>
      extract_entities lib (HybridNER regex (Some l)) text = Inl x)"
  by (auto simp: mask_def Let_def hybrid_extract_def split: sum.splits)


text \<open>
  Three calls. With a completion function that raises, the hybrid extraction raises
  although the pattern extractor found the address, and \<open>mask\<close> raises and leaves the
  masker as it was. With a value that UTF-8 cannot encode, the extraction returns, the
  substitution raises, and \<open>mask\<close> raises with the slot already written. With the text
  of two addresses, \<open>mask\<close> returns.
\<close>

lemma failing_llm_extract: "llm_extract demo_lib failing_llm demo_text = Inl (NERError RuntimeError)"
  by (simp add: llm_extract_def failing_llm_def Let_def)

lemma demo_regex_extract: "regex_extract demo_regex demo_text = [demo_email]"
  by (simp add: demo_regex_def regex_extract_def literal_finditer_def demo_text_def
        demo_email_def str_of_def py_slice_def norm_index_def)

lemma surrogate_extract:
  "extract_entities demo_lib (ner surrogate_masker) [0xD800] = Inr [surrogate_entity]"
  by (simp add: surrogate_masker_def regex_extract_def literal_finditer_def
        py_slice_def norm_index_def surrogate_entity_def)

lemma surrogate_loop:
  "mask_loop (salt surrogate_masker) [] [0xD800] (sort_desc [surrogate_entity]) =
     Inl (MaskingError UnicodeEncodeError)"
  by (simp add: surrogate_masker_def sort_desc_def entity_token_def token_def short_hash_def
        utf8_char_def demo_salt_def str_of_def surrogate_entity_def)

theorem mask_failure_witness:
  "regex_extract demo_regex demo_text = [demo_email] \<and>
   llm_extract demo_lib failing_llm demo_text = Inl (NERError RuntimeError) \<and>
   extract_entities demo_lib (ner hybrid_masker) demo_text = Inl (NERError RuntimeError) \<and>
   mask demo_lib hybrid_masker demo_text = (Inl (MaskingError (NERError RuntimeError)), hybrid_masker) \<and>
   extract_entities demo_lib (ner surrogate_masker) [0xD800] = Inr [surrogate_entity] \<and>
   mask_loop (salt surrogate_masker) [] [0xD800] (sort_desc [surrogate_entity]) =
     Inl (MaskingError UnicodeEncodeError) \<and>
   fst (mask demo_lib surrogate_masker [0xD800]) = Inl (MaskingError (MaskingError UnicodeEncodeError)) \<and>
   snd (mask demo_lib surrogate_masker [0xD800]) =
     surrogate_masker\<lparr>last_entities := sort_desc [surrogate_entity]\<rparr> \<and>
   snd (mask demo_lib demo_masker demo_text2) =
     demo_masker\<lparr>last_entities := sort_desc [demo_email_at 0, demo_email_at 9]\<rparr> \<and>
   fst (mask demo_lib demo_masker demo_text2) =
     Inr (demo_token @ str_of '', '' @ demo_token, [(demo_token, str_of ''a@b.com'')],
          sort_desc [demo_email_at 0, demo_email_at 9])"
proof -
  have n: "ner hybrid_masker = HybridNER (Some demo_regex) (Some failing_llm)"
    by (simp add: hybrid_masker_def)
  have h: "extract_entities demo_lib (ner hybrid_masker) demo_text = Inl (NERError RuntimeError)"
    using mask_failure [of demo_lib _ demo_text "NERError RuntimeError" _ _ _ _ failing_llm
        "Some demo_regex"]
      failing_llm_extract
    unfolding n by blast
  have m: "mask demo_lib hybrid_masker demo_text =
      (Inl (MaskingError (NERError RuntimeError)), hybrid_masker)"
    using mask_failure [of demo_lib hybrid_masker demo_text "NERError RuntimeError"] h
    by blast
  have s: "fst (mask demo_lib surrogate_masker [0xD800]) =
        Inl (MaskingError (MaskingError UnicodeEncodeError)) \<and>
      snd (mask demo_lib surrogate_masker [0xD800]) =
        surrogate_masker\<lparr>last_entities := sort_desc [surrogate_entity]\<rparr>"
    using mask_failure [of demo_lib surrogate_masker "[0xD800]" _ "[surrogate_entity]"
        "MaskingError UnicodeEncodeError"]
      surrogate_extract surrogate_loop
    by blast
  have l: "mask_loop (salt demo_masker) [] demo_text2 (sort_desc [demo_email_at 0, demo_email_at 9]) =
      Inr (demo_token @ str_of '', '' @ demo_token, [(demo_token, str_of ''a@b.com'')])"
    using mask_result [OF demo_mask2] by (auto simp: demo_sort2)
  have d: "snd (mask demo_lib demo_masker demo_text2) =
        demo_masker\<lparr>last_entities := sort_desc [demo_email_at 0, demo_email_at 9]\<rparr> \<and>
      fst (mask demo_lib demo_masker demo_text2) =
        Inr (demo_token @ str_of '', '' @ demo_token, [(demo_token, str_of ''a@b.com'')],
             sort_desc [demo_email_at 0, demo_email_at 9])"
    using mask_failure [of demo_lib demo_masker demo_text2 _ "[demo_email_at 0, demo_email_at 9]"]
      demo_extract2 l by blast
  from demo_regex_extract failing_llm_extract h m surrogate_extract surrogate_loop s d
  show ?thesis by (simp only: simp_thms)
qed

text \<open>
  Claim C6 as stated fails: a call that raises in the substitution (here the token of a
  text that UTF-8 cannot encode) has already overwritten \<open>last_entities\<close>, which
  \<open>get_last_entities\<close> shows.
\<close>

theorem mask_failure_leaves_entities:
  "fst (mask demo_lib surrogate_masker [0xD800]) = Inl (MaskingError (MaskingError UnicodeEncodeError)) \<and>
   get_last_entities (snd (mask demo_lib surrogate_masker [0xD800])) = [surrogate_entity] \<and>
   get_last_entities surrogate_masker = []"
  by (simp add: mask_def surrogate_masker_def regex_extract_def literal_finditer_def
        py_slice_def norm_index_def sort_desc_def entity_token_def token_def short_hash_def
        utf8_char_def demo_salt_def str_of_def get_last_entities_def surrogate_entity_def Let_def)

section \<open>Properties of the token generator\<close>

text \<open>The padded message is a whole number of blocks of 64 bytes.\<close>

lemma pad_count:
  "r < 64 \<Longrightarrow> (119 - r) mod 64 = (if r \<le> 55 then 55 - r else 119 - (r::nat))"
proof (cases "r \<le> 55")
  case True
  assume "r < 64"
  have "119 - r = 64 + (55 - r)" using True by simp
  then have "(119 - r) mod 64 = (55 - r) mod 64" by (metis mod_add_self1)
  then show ?thesis using True by simp
next
  case False
  assume "r < 64"
  then have "119 - r < 64" using False by simp
  then show ?thesis using False by simp
qed

lemma sha1_pad_length: "length (sha1_pad m) mod 64 = 0"
proof -
  define r where "r = length m mod 64"
  define q where "q = length m div 64"
  have r: "r < 64" by (simp add: r_def)
  have l: "length m = r + 64 * q" by (simp add: r_def q_def)
  have "length (sha1_pad m) = length m + (9 + (119 - r) mod 64)"
    by (simp add: sha1_pad_def be_bytes64_def r_def)
  also have "\<dots> = (if r \<le> 55 then 64 * (q + 1) else 64 * (q + 2))"
    using r by (simp add: pad_count l)
  finally show ?thesis by (simp del: mult_Suc_right)
qed

lemma length_word_bytes: "length (word_bytes w) = 4"
  by (simp add: word_bytes_def)

lemma length_sha1: "length (sha1 m) = 20"
proof -
  obtain a b c d e where
    "blocks (length (sha1_pad m) div 64)
       (0x67452301, 0xEFCDAB89, 0x98BADCFE, 0x10325476, 0xC3D2E1F0) (sha1_pad m) = (a, b, c, d, e)"
    by (metis prod_cases5)
  then show ?thesis by (simp add: sha1_def length_word_bytes)
qed

lemma b32_digit_in: "b32_digit q k \<in> set b32_alphabet"
proof -
  have "drop_bit (35 - 5 * k) q AND 31 \<le> 31" by (rule word_and_le1)
  then have "unat (drop_bit (35 - 5 * k) q AND 31) \<le> 31"
    by (simp add: word_le_nat_alt)
  then have "unat (drop_bit (35 - 5 * k) q AND 31) < length b32_alphabet"
    by (simp add: b32_alphabet_def str_of_def)
  then show ?thesis unfolding b32_digit_def by (rule nth_mem)
qed

lemma b32_quint_props:
  "length (b32_quint a b c d e) = 8 \<and> set (b32_quint a b c d e) \<subseteq> set b32_alphabet"
  by (simp add: b32_quint_def Let_def b32_digit_in)

lemma b32encode_whole:
  "length xs = 5 * n \<Longrightarrow> length (b32encode xs) = 8 * n \<and> set (b32encode xs) \<subseteq> set b32_alphabet"
proof (induction n arbitrary: xs)
  case 0
  then show ?case by simp
next
  case (Suc n)
  then have "length xs = Suc (Suc (Suc (Suc (Suc (5 * n)))))" by simp
  then obtain a b c d e rest where xs: "xs = a # b # c # d # e # rest" and r: "length rest = 5 * n"
    by (auto simp: length_Suc_conv)
  from Suc.IH [OF r] b32_quint_props [of a b c d e] show ?case
    unfolding xs by auto
qed

lemma rstrip_eq_id: "61 \<notin> set s \<Longrightarrow> rstrip_eq s = s"
proof -
  assume h: "61 \<notin> set s"
  have "dropWhile (\<lambda>c. c = 61) (rev s) = rev s"
  proof (cases "rev s")
    case Nil
    then show ?thesis by simp
  next
    case (Cons x xs)
    then have "x \<in> set s" by (metis list.set_intros(1) set_rev)
    with h have "x \<noteq> 61" by auto
    with Cons show ?thesis by simp
  qed
  then show ?thesis by (simp add: rstrip_eq_def)
qed

lemma b32_alphabet_lower:
  "c \<in> set b32_alphabet \<Longrightarrow> c \<noteq> 61 \<and> ascii_lower c \<in> {97..122} \<union> {50..55}"
  by (auto simp: b32_alphabet_def str_of_def ascii_lower_def)

lemma hash8_shape: "length (hash8 bs) = 8 \<and> set (hash8 bs) \<subseteq> {97..122} \<union> {50..55}"
proof -
  have e: "length (b32encode (sha1 bs)) = 8 * 4 \<and> set (b32encode (sha1 bs)) \<subseteq> set b32_alphabet"
    by (rule b32encode_whole) (simp add: length_sha1)
  then have "61 \<notin> set (b32encode (sha1 bs))"
    using b32_alphabet_lower by blast
  then have r: "rstrip_eq (b32encode (sha1 bs)) = b32encode (sha1 bs)" by (rule rstrip_eq_id)
  have "set (take 8 (map ascii_lower (b32encode (sha1 bs)))) \<subseteq> ascii_lower ` set (b32encode (sha1 bs))"
    by (metis set_take_subset list.set_map)
  also have "\<dots> \<subseteq> {97..122} \<union> {50..55}"
    using e b32_alphabet_lower by blast
  finally show ?thesis using e by (simp add: hash8_def r)
qed

text \<open>
  Claim C5, as amended. Token generation is a function of salt, label and value. When
  their concatenation can be encoded in UTF-8 the token is \<open><RG:\<close>, the label, a
  colon, the hash and \<open>>\<close>, where the hash always has exactly eight characters, each a
  lowercase letter or one of the digits 2 to 7; otherwise the generator raises
  \<open>MaskingError\<close>. Two entities with the same label and text get the same token (or the
  same exception) under one salt.
\<close>

theorem token_shape:
  "token slt kind value =
     (case utf8_encode (slt @ kind @ value) of
        None \<Rightarrow> Inl (MaskingError UnicodeEncodeError)
      | Some bs \<Rightarrow> Inr (str_of ''<RG:'' @ kind @ str_of '':'' @ hash8 bs @ str_of ''>'')) \<and>
   length (hash8 bs) = 8 \<and> set (hash8 bs) \<subseteq> {97..122} \<union> {50..55} \<and>
   (e_label e1 = e_label e2 \<and> e_text e1 = e_text e2 \<longrightarrow> entity_token slt e1 = entity_token slt e2)"
proof (intro conjI impI)
  show "token slt kind value =
     (case utf8_encode (slt @ kind @ value) of
        None \<Rightarrow> Inl (MaskingError UnicodeEncodeError)
      | Some bs \<Rightarrow> Inr (str_of ''<RG:'' @ kind @ str_of '':'' @ hash8 bs @ str_of ''>''))"
    by (simp add: token_def short_hash_def split: option.splits)
  show "length (hash8 bs) = 8" "set (hash8 bs) \<subseteq> {97..122} \<union> {50..55}"
    using hash8_shape [of bs] by simp_all
  assume h: "e_label e1 = e_label e2 \<and> e_text e1 = e_text e2"
  show "entity_token slt e1 = entity_token slt e2"
    by (simp only: entity_token_def conjunct1 [OF h] conjunct2 [OF h])
qed

theorem token_shape_witness:
  "token demo_salt (str_of ''EMAIL'') (str_of ''a@b.com'') = Inr demo_token \<and>
   demo_token = str_of ''<RG:'' @ str_of ''EMAIL'' @ str_of '':'' @ str_of ''yls6vutv'' @ str_of ''>'' \<and>
   length (str_of ''yls6vutv'') = 8 \<and>
   entity_token demo_salt (demo_email_at 0) = entity_token demo_salt (demo_email_at 0\<lparr>e_start := 9, e_end := 16\<rparr>)"
proof -
  have "e_label (demo_email_at 0) = e_label (demo_email_at 0\<lparr>e_start := 9, e_end := 16\<rparr>) \<and>
        e_text (demo_email_at 0) = e_text (demo_email_at 0\<lparr>e_start := 9, e_end := 16\<rparr>)"
    by simp
  then have "entity_token demo_salt (demo_email_at 0) =
        entity_token demo_salt (demo_email_at 0\<lparr>e_start := 9, e_end := 16\<rparr>)"
    using token_shape [of demo_salt "str_of ''EMAIL''" "str_of ''a@b.com''" "[]"
        "demo_email_at 0" "demo_email_at 0\<lparr>e_start := 9, e_end := 16\<rparr>"] by blast
  then show ?thesis
    by (simp add: demo_token_eval) (simp add: demo_token_def str_of_def)
qed

text \<open>
  Claim C5 as stated fails where no token is produced: a value holding a lone surrogate
  code point cannot be encoded, and the generator raises.
\<close>

theorem token_surrogate_raises:
  "token demo_salt (str_of ''EMAIL'') [0xD800] = Inl (MaskingError UnicodeEncodeError)"
  by (simp add: token_def short_hash_def utf8_char_def demo_salt_def str_of_def)

section \<open>Properties of the unmask engine\<close>

subsection \<open>Literal substitution\<close>

lemma sub_literal_skip:
  "tk \<noteq> [] \<Longrightarrow> \<forall>i<length g. \<not> prefix tk (drop i (g @ rest)) \<Longrightarrow>
   sub_literal tk r (g @ rest) = g @ sub_literal tk r rest"
proof (induction g)
  case Nil
  then show ?case by simp
next
  case (Cons c g)
  have "\<not> prefix tk (c # g @ rest)" using Cons.prems(2) by force
  moreover have "\<forall>i<length g. \<not> prefix tk (drop i (g @ rest))"
  proof (intro allI impI)
    fix i assume "i < length g"
    then have "\<not> prefix tk (drop (Suc i) ((c # g) @ rest))"
      using Cons.prems(2) by (metis Suc_less_eq length_Cons)
    then show "\<not> prefix tk (drop i (g @ rest))" by simp
  qed
  ultimately show ?case using Cons.IH Cons.prems(1) by simp
qed


lemma sub_literal_none:
  "tk \<noteq> [] \<Longrightarrow> \<forall>i<length s. \<not> prefix tk (drop i s) \<Longrightarrow> sub_literal tk r s = s"
  using sub_literal_skip [of tk s "[]" r] by simp

lemma prefix_drop_sublist: "prefix tk (drop i s) \<Longrightarrow> sublist tk s"
  by (metis append_take_drop_id prefix_def sublist_appendI sublist_def)

subsection \<open>Angle-delimited strings\<close>

lemma angle_delimitedD:
  assumes "angle_delimited w"
  obtains body where "w = 60 # body @ [62]" "60 \<notin> set body" "62 \<notin> set body"
proof -
  from assms have l: "2 \<le> length w" and h: "hd w = 60" and la: "last w = 62"
    and b: "60 \<notin> set (butlast (tl w))" "62 \<notin> set (butlast (tl w))"
    by (auto simp: angle_delimited_def)
  from l obtain x xs where w: "w = x # xs" "xs \<noteq> []" by (cases w; cases "tl w") auto
  have "last xs = 62" using la w by simp
  then have "xs = butlast xs @ [62]" by (metis append_butlast_last_id w(2))
  then have e: "w = 60 # butlast xs @ [62]" using h w(1) by simp
  from b w(1) have b': "60 \<notin> set (butlast xs)" "62 \<notin> set (butlast xs)" by simp_all
  show thesis by (rule that [OF e b'])
qed

lemma angle_delimitedI:
  "60 \<notin> set body \<Longrightarrow> 62 \<notin> set body \<Longrightarrow> angle_delimited (60 # body @ [62])"
  by (simp add: angle_delimited_def)

text \<open>An occurrence of one angle-delimited string at the start of a string that begins
  with another is the other.\<close>

lemma angle_prefix_eq:
  assumes "angle_delimited tk" and "angle_delimited w" and "prefix tk (w @ rest)"
  shows "tk = w"
proof -
  from assms(1) obtain a where tk: "tk = 60 # a @ [62]" "60 \<notin> set a" "62 \<notin> set a"
    by (rule angle_delimitedD)
  from assms(2) obtain b where w: "w = 60 # b @ [62]" "60 \<notin> set b" "62 \<notin> set b"
    by (rule angle_delimitedD)
  from assms(3) have p: "prefix (a @ [62]) (b @ 62 # rest)" by (simp add: tk w)
  then obtain z where z: "b @ 62 # rest = a @ 62 # z" by (auto simp: prefix_def)
  have "takeWhile (\<lambda>c. c \<noteq> 62) (b @ 62 # rest) = b"
    using w(3) by (subst takeWhile_append2) auto
  moreover have "takeWhile (\<lambda>c. c \<noteq> 62) (a @ 62 # z) = a"
    using tk(3) by (subst takeWhile_append2) auto
  ultimately have "a = b" using z by simp
  then show ?thesis by (simp add: tk w)
qed

lemma angle_no_inner_match:
  assumes "angle_delimited tk" and "angle_delimited w" and "0 < i" and "i < length w"
  shows "\<not> prefix tk (drop i (w @ rest))"
proof
  assume p: "prefix tk (drop i (w @ rest))"
  from assms(1) obtain a where tk: "tk = 60 # a @ [62]" by (rule angle_delimitedD)
  from assms(2) obtain b where w: "w = 60 # b @ [62]" "60 \<notin> set b" "62 \<notin> set b"
    by (rule angle_delimitedD)
  have "drop i (w @ rest) = drop i w @ rest" using assms(4) by simp
  moreover have "drop i w \<noteq> []" using assms(4) by simp
  ultimately have "hd (drop i (w @ rest)) = hd (drop i w)" by simp
  also have "\<dots> = w ! i" using assms(4) by (simp add: hd_drop_conv_nth)
  finally have "hd (drop i (w @ rest)) = w ! i" .
  moreover have "hd (drop i (w @ rest)) = 60"
    using p tk by (auto simp: prefix_def)
  ultimately have "w ! i = 60" by simp
  moreover have "w ! i \<in> set (b @ [62])"
    using assms(3,4) w(1) by (metis Suc_pred length_Cons not_less_eq nth_Cons_Suc nth_mem)
  ultimately show False using w(2) by auto
qed

text \<open>A match that starts in a gap and runs into a following angle-delimited string
  does not exist: it would hold a second opening bracket.\<close>

lemma no_match_across:
  assumes "angle_delimited tk" and "angle_delimited w" and "x \<noteq> []"
    and "prefix tk (x @ w @ rest)"
  shows "prefix tk x"
proof (rule ccontr)
  assume n: "\<not> prefix tk x"
  from assms(1) obtain a where tk: "tk = 60 # a @ [62]" "60 \<notin> set a" "62 \<notin> set a"
    by (rule angle_delimitedD)
  from assms(2) obtain b where w: "w = 60 # b @ [62]" by (rule angle_delimitedD)
  from assms(4) n obtain y where y: "tk = x @ y" "y \<noteq> []" "prefix y (w @ rest)"
    by (metis append.right_neutral prefix_append prefixE prefix_def)
  then have "hd y = 60" using w by (cases y) (auto simp: prefix_def)
  with y(2) have "60 \<in> set y" by (metis hd_in_set)
  from assms(3) obtain c cs where x: "x = c # cs" by (cases x) auto
  with y(1) tk(1) have "a @ [62] = cs @ y" by simp
  with \<open>60 \<in> set y\<close> have "60 \<in> set (a @ [62])" by simp
  with tk(2) show False by simp
qed

lemma angle_delimited_nonempty: "angle_delimited tk \<Longrightarrow> tk \<noteq> []"
  by (auto simp: angle_delimited_def)

lemma sub_literal_append:
  "tk \<noteq> [] \<Longrightarrow> \<forall>i<length a. prefix tk (drop i (a @ rest)) \<longrightarrow> prefix tk (drop i a) \<Longrightarrow>
   sub_literal tk r (a @ rest) = sub_literal tk r a @ sub_literal tk r rest"
proof (induction tk r a rule: sub_literal.induct)
  case (1 tk r)
  then show ?case by simp
next
  case (2 tk r c cs)
  show ?case
  proof (cases "prefix tk (c # cs)")
    case True
    then have len: "length tk \<le> Suc (length cs)"
      by (metis length_Cons prefix_length_le)
    have p: "prefix tk (c # cs @ rest)"
      using True by (metis append_Cons prefix_prefix)
    let ?a = "drop (length tk - 1) cs"
    have "\<forall>i<length ?a. prefix tk (drop i (?a @ rest)) \<longrightarrow> prefix tk (drop i ?a)"
    proof (intro allI impI)
      fix i assume i: "i < length ?a" and q: "prefix tk (drop i (?a @ rest))"
      have "i + length tk < length (c # cs)" using i "2.prems"(1) by (cases tk) auto
      moreover have "drop (i + length tk) ((c # cs) @ rest) = drop i (?a @ rest)"
        using "2.prems"(1) len by (cases tk) (auto simp: add.commute)
      moreover have "drop (i + length tk) (c # cs) = drop i ?a"
        using "2.prems"(1) by (cases tk) (auto simp: add.commute)
      ultimately show "prefix tk (drop i ?a)"
        using "2.prems"(2) q by metis
    qed
    then have "sub_literal tk r (?a @ rest) = sub_literal tk r ?a @ sub_literal tk r rest"
      using "2.IH"(2) "2.prems"(1) True by blast
    moreover have "drop (length tk - 1) (cs @ rest) = ?a @ rest"
      using len by simp
    ultimately show ?thesis using True p "2.prems"(1) by simp
  next
    case False
    then have np: "\<not> prefix tk (c # cs @ rest)"
      using "2.prems"(2) by force
    have "\<forall>i<length cs. prefix tk (drop i (cs @ rest)) \<longrightarrow> prefix tk (drop i cs)"
    proof (intro allI impI)
      fix i assume i: "i < length cs" and q: "prefix tk (drop i (cs @ rest))"
      have "Suc i < length (c # cs)" using i by simp
      moreover have "prefix tk (drop (Suc i) ((c # cs) @ rest))" using q by simp
      ultimately have "prefix tk (drop (Suc i) (c # cs))" using "2.prems"(2) by blast
      then show "prefix tk (drop i cs)" by simp
    qed
    then have "sub_literal tk r (cs @ rest) = sub_literal tk r cs @ sub_literal tk r rest"
      using "2.IH"(3) "2.prems"(1) False by blast
    then show ?thesis using False np "2.prems"(1) by simp
  qed
qed

lemma sub_literal_over:
  assumes "angle_delimited tk" and "angle_delimited w" and "tk \<noteq> w"
  shows "sub_literal tk r (w @ b) = w @ sub_literal tk r b"
proof (rule sub_literal_skip)
  show "tk \<noteq> []" using assms(1) by (rule angle_delimited_nonempty)
  show "\<forall>i<length w. \<not> prefix tk (drop i (w @ b))"
  proof (intro allI impI)
    fix i assume i: "i < length w"
    show "\<not> prefix tk (drop i (w @ b))"
    proof (cases "i = 0")
      case True
      then show ?thesis using angle_prefix_eq [OF assms(1,2)] assms(3) by auto
    next
      case False
      then show ?thesis using angle_no_inner_match [OF assms(1,2) _ i] by simp
    qed
  qed
qed

lemma sub_literal_around:
  assumes "angle_delimited tk" and "angle_delimited w" and "tk \<noteq> w"
  shows "sub_literal tk r (a @ w @ b) = sub_literal tk r a @ w @ sub_literal tk r b"
proof -
  have ne: "tk \<noteq> []" using assms(1) by (rule angle_delimited_nonempty)
  have "\<forall>i<length a. prefix tk (drop i (a @ w @ b)) \<longrightarrow> prefix tk (drop i a)"
  proof (intro allI impI)
    fix i assume i: "i < length a" and p: "prefix tk (drop i (a @ w @ b))"
    have "drop i a \<noteq> []" using i by simp
    moreover have "prefix tk (drop i a @ w @ b)" using p i by simp
    ultimately show "prefix tk (drop i a)"
      using no_match_across [OF assms(1,2)] by blast
  qed
  then have "sub_literal tk r (a @ w @ b) = sub_literal tk r a @ sub_literal tk r (w @ b)"
    using sub_literal_append [OF ne] by blast
  then show ?thesis by (simp add: sub_literal_over [OF assms])
qed

lemma unmask_loop_around:
  assumes "angle_delimited w"
  shows "\<forall>tk\<in>set tks. angle_delimited tk \<and> tk \<noteq> w \<Longrightarrow>
     unmask_loop lib mapping tks (a @ w @ b) =
       (case unmask_loop lib mapping tks a of
          Inl x \<Rightarrow> Inl x
        | Inr ra \<Rightarrow>
            (case unmask_loop lib mapping tks b of Inl x \<Rightarrow> Inl x | Inr rb \<Rightarrow> Inr (ra @ w @ rb)))"
proof (induction tks arbitrary: a b)
  case Nil
  then show ?case by simp
next
  case (Cons tk tks)
  then have tk: "angle_delimited tk" "tk \<noteq> w" by auto
  show ?case
  proof (cases "map_of mapping tk")
    case None
    then show ?thesis by simp
  next
    case (Some v)
    show ?thesis
    proof (cases "parse_template (group_index lib) v")
      case (Inl x)
      then show ?thesis using Some by (simp add: re_sub_def)
    next
      case (Inr ps)
      let ?r = "expand_template ps tk"
      have "unmask_loop lib mapping tks (sub_literal tk ?r a @ w @ sub_literal tk ?r b) =
        (case unmask_loop lib mapping tks (sub_literal tk ?r a) of
           Inl x \<Rightarrow> Inl x
         | Inr ra \<Rightarrow>
             (case unmask_loop lib mapping tks (sub_literal tk ?r b) of
                Inl x \<Rightarrow> Inl x | Inr rb \<Rightarrow> Inr (ra @ w @ rb)))"
        using Cons.IH Cons.prems by simp
      moreover have "unmask_loop lib mapping (tk # tks) (a @ w @ b) =
          unmask_loop lib mapping tks (sub_literal tk ?r a @ w @ sub_literal tk ?r b)"
        using Some Inr by (simp add: re_sub_def sub_literal_around [OF tk(1) assms tk(2)])
      moreover have "unmask_loop lib mapping (tk # tks) a =
          unmask_loop lib mapping tks (sub_literal tk ?r a)"
        using Some Inr by (simp add: re_sub_def)
      moreover have "unmask_loop lib mapping (tk # tks) b =
          unmask_loop lib mapping tks (sub_literal tk ?r b)"
        using Some Inr by (simp add: re_sub_def)
      ultimately show ?thesis by (simp only:)
    qed
  qed
qed

lemma token_shape_delimited:
  assumes "60 \<notin> set X" "62 \<notin> set X" "60 \<notin> set Y" "62 \<notin> set Y"
  shows "angle_delimited (str_of ''<RG:'' @ X @ str_of '':'' @ Y @ str_of ''>'')"
proof -
  have e: "str_of ''<RG:'' @ X @ str_of '':'' @ Y @ str_of ''>'' =
        60 # (str_of ''RG:'' @ X @ str_of '':'' @ Y) @ [62]"
    by (simp add: str_of_def)
  have "60 \<notin> set (str_of ''RG:'' @ X @ str_of '':'' @ Y)"
    "62 \<notin> set (str_of ''RG:'' @ X @ str_of '':'' @ Y)"
    using assms by (simp_all add: str_of_def)
  then have "angle_delimited (60 # (str_of ''RG:'' @ X @ str_of '':'' @ Y) @ [62])"
    by (rule angle_delimitedI)
  then show ?thesis by (simp only: e)
qed

text \<open>A text in which none of the strings to replace occurs passes through the loop
  unchanged, unless a replacement template is bad, which raises on every text alike.\<close>

lemma unmask_loop_absent:
  "\<forall>tk\<in>set tks. \<not> sublist tk s \<Longrightarrow>
   unmask_loop lib mapping tks s =
     (case unmask_loop lib mapping tks [] of Inl x \<Rightarrow> Inl x | Inr r \<Rightarrow> Inr s)"
proof (induction tks)
  case Nil
  then show ?case by simp
next
  case (Cons tk tks)
  then have n: "\<not> sublist tk s" by simp
  then have ne: "tk \<noteq> []" by auto
  have "\<forall>i<length s. \<not> prefix tk (drop i s)"
    using n prefix_drop_sublist by blast
  then have same: "sub_literal tk r s = s" for r
    using sub_literal_none [OF ne] by blast
  have empty: "sub_literal tk r [] = []" for r
    using ne by simp
  show ?case
  proof (cases "map_of mapping tk")
    case None
    then show ?thesis by simp
  next
    case (Some v)
    show ?thesis
    proof (cases "parse_template (group_index lib) v")
      case (Inl x)
      then show ?thesis using Some by (simp add: re_sub_def)
    next
      case (Inr ps)
      have "unmask_loop lib mapping (tk # tks) s = unmask_loop lib mapping tks s"
        using Some Inr by (simp add: re_sub_def same)
      moreover have "unmask_loop lib mapping (tk # tks) [] = unmask_loop lib mapping tks []"
        using Some Inr ne by (simp add: re_sub_def)
      moreover have "unmask_loop lib mapping tks s =
          (case unmask_loop lib mapping tks [] of Inl x \<Rightarrow> Inl x | Inr r \<Rightarrow> Inr s)"
        using Cons.IH Cons.prems by simp
      ultimately show ?thesis by (simp only:)
    qed
  qed
qed

text \<open>
  Claim C7, as amended. First: let every key of the mapping be delimited by angle
  brackets with none inside (as every generated token is whose label has none), and let
  \<open>w\<close> be a string of the token shape \<open><RG:X:Y>\<close>, with no angle bracket in \<open>X\<close> and
  \<open>Y\<close>, that is not a key. Then \<open>unmask\<close> leaves an occurrence of \<open>w\<close> where it is
  and treats the text before and after it independently: the result for \<open>a + w + b\<close> is
  the result for \<open>a\<close>, then \<open>w\<close>, then the result for \<open>b\<close>, and it raises when
  either of these does. Second, for every mapping: a text in which no key occurs as a
  substring is returned unchanged, unless the call raises, which it then also does on the
  empty text.
\<close>

theorem unmask_keeps_unknown_token:
  "((\<forall>k\<in>fst ` set mapping. angle_delimited k) \<and>
    w = str_of ''<RG:'' @ X @ str_of '':'' @ Y @ str_of ''>'' \<and>
    60 \<notin> set X \<and> 62 \<notin> set X \<and> 60 \<notin> set Y \<and> 62 \<notin> set Y \<and>
    w \<notin> fst ` set mapping \<longrightarrow>
    unmask lib (a @ w @ b) mapping =
      (case unmask lib a mapping of
         Inl x \<Rightarrow> Inl x
       | Inr ra \<Rightarrow>
           (case unmask lib b mapping of Inl x \<Rightarrow> Inl x | Inr rb \<Rightarrow> Inr (ra @ w @ rb)))) \<and>
   ((\<forall>k\<in>fst ` set mapping. \<not> sublist k text) \<longrightarrow>
    unmask lib text mapping =
      (case unmask lib [] mapping of Inl x \<Rightarrow> Inl x | Inr r \<Rightarrow> Inr text))"
proof (intro conjI impI)
  assume h: "(\<forall>k\<in>fst ` set mapping. angle_delimited k) \<and>
    w = str_of ''<RG:'' @ X @ str_of '':'' @ Y @ str_of ''>'' \<and>
    60 \<notin> set X \<and> 62 \<notin> set X \<and> 60 \<notin> set Y \<and> 62 \<notin> set Y \<and>
    w \<notin> fst ` set mapping"
  then have k: "\<forall>k\<in>fst ` set mapping. angle_delimited k"
    and nk: "w \<notin> fst ` set mapping"
    and e: "w = str_of ''<RG:'' @ X @ str_of '':'' @ Y @ str_of ''>''"
    and xy: "60 \<notin> set X" "62 \<notin> set X" "60 \<notin> set Y" "62 \<notin> set Y"
    by blast+
  have w: "angle_delimited w"
    unfolding e using xy by (rule token_shape_delimited)
  have "set (tokens_sorted mapping) = fst ` set mapping"
    by (simp add: tokens_sorted_def)
  then have "\<forall>tk\<in>set (tokens_sorted mapping). angle_delimited tk \<and> tk \<noteq> w"
    using k nk by auto
  from unmask_loop_around [OF w this, of lib mapping a b]
  show "unmask lib (a @ w @ b) mapping =
      (case unmask lib a mapping of
         Inl x \<Rightarrow> Inl x
       | Inr ra \<Rightarrow>
           (case unmask lib b mapping of Inl x \<Rightarrow> Inl x | Inr rb \<Rightarrow> Inr (ra @ w @ rb)))"
    by (auto simp: unmask_def split: sum.splits)
next
  assume h: "\<forall>k\<in>fst ` set mapping. \<not> sublist k text"
  have "set (tokens_sorted mapping) = fst ` set mapping"
    by (simp add: tokens_sorted_def)
  then have "\<forall>tk\<in>set (tokens_sorted mapping). \<not> sublist tk text"
    using h by auto
  from unmask_loop_absent [OF this, of lib mapping]
  show "unmask lib text mapping =
      (case unmask lib [] mapping of Inl x \<Rightarrow> Inl x | Inr r \<Rightarrow> Inr text)"
    by (auto simp: unmask_def split: sum.splits)
qed

lemma demo_unmask_a: "unmask demo_lib (str_of ''Dear '') demo_mapping = Inr (str_of ''Dear '')"
  by (simp add: unmask_def tokens_sorted_def demo_mapping_def re_sub_def demo_token_def
        str_of_def cons_piece_def)

lemma demo_unmask_b:
  "unmask demo_lib (str_of '' write to <RG:EMAIL:yls6vutv>'') demo_mapping =
     Inr (str_of '' write to a@b.com'')"
  by (simp add: unmask_def tokens_sorted_def demo_mapping_def re_sub_def demo_token_def
        str_of_def cons_piece_def)

lemma demo_unmask_empty: "unmask demo_lib [] demo_mapping = Inr []"
  by (simp add: unmask_def tokens_sorted_def demo_mapping_def re_sub_def demo_token_def
        str_of_def cons_piece_def)

theorem unmask_keeps_unknown_token_witness:
  "unmask demo_lib
     (str_of ''Dear '' @ str_of ''<RG:PERSON:abcdefgh>'' @ str_of '' write to <RG:EMAIL:yls6vutv>'')
     demo_mapping =
   Inr (str_of ''Dear '' @ str_of ''<RG:PERSON:abcdefgh>'' @ str_of '' write to a@b.com'') \<and>
   \<not> sublist demo_token (str_of ''Dear <RG:PERSON:abcdefgh>'') \<and>
   unmask demo_lib (str_of ''Dear <RG:PERSON:abcdefgh>'') demo_mapping =
     Inr (str_of ''Dear <RG:PERSON:abcdefgh>'')"
proof -
  have k: "\<forall>k\<in>fst ` set demo_mapping. angle_delimited k"
    by (simp add: demo_mapping_def demo_token_def str_of_def angle_delimited_def)
  have w: "str_of ''<RG:PERSON:abcdefgh>'' =
      str_of ''<RG:'' @ str_of ''PERSON'' @ str_of '':'' @ str_of ''abcdefgh'' @ str_of ''>''"
    by (simp add: str_of_def)
  have n: "str_of ''<RG:PERSON:abcdefgh>'' \<notin> fst ` set demo_mapping"
    by (simp add: demo_mapping_def demo_token_def str_of_def)
  have x: "60 \<notin> set (str_of ''PERSON'')" "62 \<notin> set (str_of ''PERSON'')"
    "60 \<notin> set (str_of ''abcdefgh'')" "62 \<notin> set (str_of ''abcdefgh'')"
    by (simp_all add: str_of_def)
  have first: "unmask demo_lib
       (str_of ''Dear '' @ str_of ''<RG:PERSON:abcdefgh>'' @ str_of '' write to <RG:EMAIL:yls6vutv>'')
       demo_mapping =
     Inr (str_of ''Dear '' @ str_of ''<RG:PERSON:abcdefgh>'' @ str_of '' write to a@b.com'')"
    using unmask_keeps_unknown_token [of demo_mapping "str_of ''<RG:PERSON:abcdefgh>''"
        "str_of ''PERSON''" "str_of ''abcdefgh''" demo_lib "str_of ''Dear ''"
        "str_of '' write to <RG:EMAIL:yls6vutv>''"] k w x n
    by (simp only: demo_unmask_a demo_unmask_b sum.case simp_thms)
  have absent: "\<forall>k\<in>fst ` set demo_mapping. \<not> sublist k (str_of ''Dear <RG:PERSON:abcdefgh>'')"
    by (simp add: demo_mapping_def demo_token_def str_of_def sublist_Cons_right)
  have second: "unmask demo_lib (str_of ''Dear <RG:PERSON:abcdefgh>'') demo_mapping =
      Inr (str_of ''Dear <RG:PERSON:abcdefgh>'')"
    using unmask_keeps_unknown_token [of demo_mapping _ _ _ demo_lib _ _
        "str_of ''Dear <RG:PERSON:abcdefgh>''"] absent
    by (simp only: demo_unmask_empty sum.case simp_thms)
  have absent': "\<not> sublist demo_token (str_of ''Dear <RG:PERSON:abcdefgh>'')"
    using absent by (simp add: demo_mapping_def)
  from first absent' second show ?thesis by (simp only: simp_thms)
qed

text \<open>
  Claim C7 as stated fails. A string of the token shape that is not a key changes when a
  key occurs inside it, be the key a generated token or any other string. And what is
  replaced is not only what equals a key in the text: a replacement can complete an
  occurrence of a key that is replaced in turn, as in \<open><k1>2>\<close>, which has no
  occurrence of the key \<open><k2>\<close>.
\<close>

theorem unmask_changes_unknown_token:
  "unmask demo_lib (str_of ''<RG:<RG:EMAIL:yls6vutv>:Y>'') demo_mapping =
     Inr (str_of ''<RG:a@b.com:Y>'') \<and>
   unmask demo_lib (str_of ''<RG:A:B>'') [(str_of ''RG'', str_of ''zz'')] =
     Inr (str_of ''<zz:A:B>'') \<and>
   unmask demo_lib (str_of ''<k1>2>'') cascade_mapping = Inr (str_of ''zz'')"
  by (simp add: unmask_def tokens_sorted_def demo_mapping_def re_sub_def demo_token_def
        str_of_def cons_piece_def cascade_mapping_def)

section \<open>Masking and unmasking in sequence\<close>

subsection \<open>Slices with bounds inside the string\<close>





subsection \<open>Chains and the rendered text\<close>








subsection \<open>What the substitution loop of mask builds\<close>



subsection \<open>Replacement values without a backslash\<close>




subsection \<open>Putting a value back\<close>



subsection \<open>One substitution of unmask on a rendered text\<close>




subsection \<open>The loop of unmask on a rendered text\<close>


subsection \<open>Generated tokens\<close>


subsection \<open>The round trip\<close>






text \<open>
  A replacement value with a backslash is read by \<open>re.sub\<close> as a template: here the
  backslash and the letter n become a line feed (code point 10), so the value that comes
  back is not the one that was masked.
\<close>

lemma unmask_reads_escapes:
  "unmask demo_lib demo_token [(demo_token, [67, 58, 92, 110, 101, 119])] = Inr [67, 58, 10, 101, 119]"
  by (simp add: unmask_def tokens_sorted_def re_sub_def demo_token_def str_of_def cons_piece_def
        simple_escape_def is_digit_def)

end
